theory Spec2Isabelle
  imports Main "HOL-Library.Word"
begin

section \<open>Memory, build parameters and outcomes\<close>

text \<open>
  The routines of \<^verbatim>\<open>blosc/memcopy.h\<close> work on raw \<^verbatim>\<open>unsigned char *\<close> cursors that may
  alias. Memory is therefore one flat store from addresses to bytes, and a pointer is an
  address (an \<open>int\<close>, so that \<^verbatim>\<open>out - 1\<close> and \<^verbatim>\<open>from - out\<close> are plain subtraction).
  Beside the contents the store carries the set of addresses written so far, so that the
  footprint of a routine can be stated.

  The \<^verbatim>\<open>unsigned\<close> lengths and distances are natural numbers. No operation of the file can
  wrap: every subtraction is guarded in the code itself (\<^verbatim>\<open>while (len--)\<close>,
  \<^verbatim>\<open>len -= by8\<close> with \<^verbatim>\<open>by8 = len % 8\<close>, \<^verbatim>\<open>len - 5\<close> behind \<^verbatim>\<open>dist < len\<close> with
  \<^verbatim>\<open>dist = 5\<close>, \<^verbatim>\<open>len -= dist\<close> behind \<^verbatim>\<open>dist < len\<close>, \<^verbatim>\<open>len -= 8\<close> on a non-zero multiple
  of 8), and the only addition, \<^verbatim>\<open>dist += dist\<close>, runs with \<^verbatim>\<open>dist < 8\<close>.
\<close>

type_synonym byte = "8 word"

record heap =
  mem :: "int \<Rightarrow> byte"
  wr :: "int set"

text \<open>
  Three preprocessor symbols select the code that is compiled: \<^verbatim>\<open>NDEBUG\<close> turns
  \<^verbatim>\<open>assert\<close> into nothing, \<^verbatim>\<open>UNALIGNED_OK\<close> selects the switch-based bodies of
  \<^verbatim>\<open>copy_bytes\<close> and \<^verbatim>\<open>set_bytes\<close>, \<^verbatim>\<open>__SSE2__\<close> adds the 16-byte routines. None of them
  is set in the file itself, so they are parameters of the model.
\<close>

record build =
  ndebug :: bool
  unaligned_ok :: bool
  sse2 :: bool

text \<open>
  A call either returns the advanced cursor or stops in a failed \<^verbatim>\<open>assert\<close>. Both carry
  the store as it is at that moment.
\<close>

datatype outcome = AssertFail heap | Return heap int

fun final :: "outcome \<Rightarrow> heap" where
  "final (AssertFail s) = s"
| "final (Return s p) = s"

fun aborted :: "outcome \<Rightarrow> bool" where
  "aborted (AssertFail s) = True"
| "aborted (Return s p) = False"

definition ret :: "heap \<times> int \<Rightarrow> outcome" where
  "ret r = Return (fst r) (snd r)"

subsection \<open>Loads and stores\<close>

definition load :: "heap \<Rightarrow> int \<Rightarrow> nat \<Rightarrow> byte list" where
  "load s a n = map (\<lambda>i. mem s (a + int i)) [0..<n]"

primrec store :: "heap \<Rightarrow> int \<Rightarrow> byte list \<Rightarrow> heap" where
  "store s a [] = s"
| "store s a (b # bs) =
     store (s\<lparr>mem := (mem s)(a := b), wr := insert a (wr s)\<rparr>) (a + 1) bs"

text \<open>
  \<^verbatim>\<open>MEMCPY(&chunk, from, n); MEMCPY(out, &chunk, n);\<close> reads all \<open>n\<close> bytes into the local
  \<^verbatim>\<open>chunk\<close> and only then writes them (the SSE2 load/store pair does the same with 16
  bytes). \<^verbatim>\<open>MEMSET(out, c, n)\<close> writes \<open>n\<close> copies of \<open>c\<close>.
\<close>

definition via_chunk :: "heap \<Rightarrow> int \<Rightarrow> int \<Rightarrow> nat \<Rightarrow> heap" where
  "via_chunk s out from n = store s out (load s from n)"

definition MEMSET :: "heap \<Rightarrow> int \<Rightarrow> byte \<Rightarrow> nat \<Rightarrow> heap" where
  "MEMSET s out c n = store s out (replicate n c)"

section \<open>Fixed-width copies\<close>

definition copy_1_bytes :: "heap \<Rightarrow> int \<Rightarrow> int \<Rightarrow> heap \<times> int" where
  "copy_1_bytes s out from = (store s out [mem s from], out + 1)"

definition copy_2_bytes :: "heap \<Rightarrow> int \<Rightarrow> int \<Rightarrow> heap \<times> int" where
  "copy_2_bytes s out from = (via_chunk s out from 2, out + 2)"

definition copy_3_bytes :: "heap \<Rightarrow> int \<Rightarrow> int \<Rightarrow> heap \<times> int" where
  "copy_3_bytes s out from =
     (case copy_1_bytes s out from of (s1, out1) \<Rightarrow> copy_2_bytes s1 out1 (from + 1))"

definition copy_4_bytes :: "heap \<Rightarrow> int \<Rightarrow> int \<Rightarrow> heap \<times> int" where
  "copy_4_bytes s out from = (via_chunk s out from 4, out + 4)"

definition copy_5_bytes :: "heap \<Rightarrow> int \<Rightarrow> int \<Rightarrow> heap \<times> int" where
  "copy_5_bytes s out from =
     (case copy_1_bytes s out from of (s1, out1) \<Rightarrow> copy_4_bytes s1 out1 (from + 1))"

definition copy_6_bytes :: "heap \<Rightarrow> int \<Rightarrow> int \<Rightarrow> heap \<times> int" where
  "copy_6_bytes s out from =
     (case copy_2_bytes s out from of (s1, out1) \<Rightarrow> copy_4_bytes s1 out1 (from + 2))"

definition copy_7_bytes :: "heap \<Rightarrow> int \<Rightarrow> int \<Rightarrow> heap \<times> int" where
  "copy_7_bytes s out from =
     (case copy_3_bytes s out from of (s1, out1) \<Rightarrow> copy_4_bytes s1 out1 (from + 3))"

definition copy_8_bytes :: "heap \<Rightarrow> int \<Rightarrow> int \<Rightarrow> heap \<times> int" where
  "copy_8_bytes s out from = (via_chunk s out from 8, out + 8)"

definition copy_16_bytes :: "heap \<Rightarrow> int \<Rightarrow> int \<Rightarrow> heap \<times> int" where
  "copy_16_bytes s out from = (via_chunk s out from 16, out + 16)"

section \<open>Short copies\<close>

text \<open>
  The byte loop \<^verbatim>\<open>while (len--) { *out++ = *from++; }\<close> of \<^verbatim>\<open>copy_bytes\<close> and
  \<^verbatim>\<open>set_bytes\<close> (without \<^verbatim>\<open>UNALIGNED_OK\<close>); \<^verbatim>\<open>safe_copy\<close> runs the same loop written as
  \<^verbatim>\<open>for (; len; --len)\<close>.
\<close>

fun byte_loop :: "heap \<Rightarrow> int \<Rightarrow> int \<Rightarrow> nat \<Rightarrow> heap \<times> int" where
  "byte_loop s out from 0 = (s, out)"
| "byte_loop s out from (Suc n) = byte_loop (store s out [mem s from]) (out + 1) (from + 1) n"

definition copy_bytes :: "build \<Rightarrow> heap \<Rightarrow> int \<Rightarrow> int \<Rightarrow> nat \<Rightarrow> outcome" where
  "copy_bytes cfg s out from len =
     (if \<not> ndebug cfg \<and> \<not> len < 8 then AssertFail s
      else if \<not> unaligned_ok cfg then ret (byte_loop s out from len)
      else if len = 7 then ret (copy_7_bytes s out from)
      else if len = 6 then ret (copy_6_bytes s out from)
      else if len = 5 then ret (copy_5_bytes s out from)
      else if len = 4 then ret (copy_4_bytes s out from)
      else if len = 3 then ret (copy_3_bytes s out from)
      else if len = 2 then ret (copy_2_bytes s out from)
      else if len = 1 then ret (copy_1_bytes s out from)
      else if len = 0 then Return s out
      else if \<not> ndebug cfg then AssertFail s
      else Return s out)"

text \<open>
  The three cases of \<^verbatim>\<open>set_bytes\<close> that hold an inner switch. The inner
  \<^verbatim>\<open>default: assert(0); break;\<close> leaves the inner switch only, so without assertions
  control falls into the next case of the outer switch: case 3 into case 2, case 2 into
  case 1, case 1 to the final \<^verbatim>\<open>return out\<close>.
\<close>

definition set_bytes_case1 :: "build \<Rightarrow> heap \<Rightarrow> int \<Rightarrow> int \<Rightarrow> nat \<Rightarrow> outcome" where
  "set_bytes_case1 cfg s out from len =
     (if \<not> ndebug cfg \<and> \<not> (2 \<le> len \<and> len \<le> 7) then AssertFail s
      else let c = mem s from in
        if len = 7 then Return (MEMSET s out c 7) (out + 7)
        else if len = 6 then Return (MEMSET s out c 6) (out + 6)
        else if len = 5 then Return (MEMSET s out c 5) (out + 5)
        else if len = 4 then Return (MEMSET s out c 4) (out + 4)
        else if len = 3 then Return (MEMSET s out c 3) (out + 3)
        else if len = 2 then Return (MEMSET s out c 2) (out + 2)
        else if \<not> ndebug cfg then AssertFail s
        else Return s out)"

definition set_bytes_case2 :: "build \<Rightarrow> heap \<Rightarrow> int \<Rightarrow> int \<Rightarrow> nat \<Rightarrow> outcome" where
  "set_bytes_case2 cfg s out from len =
     (if \<not> ndebug cfg \<and> \<not> (3 \<le> len \<and> len \<le> 7) then AssertFail s
      else case copy_2_bytes s out from of (s1, out1) \<Rightarrow>
        if len = 7 then
          (case copy_4_bytes s1 out1 from of (s2, out2) \<Rightarrow> ret (copy_1_bytes s2 out2 from))
        else if len = 6 then ret (copy_4_bytes s1 out1 from)
        else if len = 5 then
          (case copy_2_bytes s1 out1 from of (s2, out2) \<Rightarrow> ret (copy_1_bytes s2 out2 from))
        else if len = 4 then ret (copy_2_bytes s1 out1 from)
        else if len = 3 then ret (copy_1_bytes s1 out1 from)
        else if \<not> ndebug cfg then AssertFail s1
        else set_bytes_case1 cfg s1 out1 from len)"

definition set_bytes_case3 :: "build \<Rightarrow> heap \<Rightarrow> int \<Rightarrow> int \<Rightarrow> nat \<Rightarrow> outcome" where
  "set_bytes_case3 cfg s out from len =
     (if \<not> ndebug cfg \<and> \<not> (4 \<le> len \<and> len \<le> 7) then AssertFail s
      else case copy_3_bytes s out from of (s1, out1) \<Rightarrow>
        if len = 7 then ret (copy_4_bytes s1 out1 from)
        else if len = 6 then ret (copy_3_bytes s1 out1 from)
        else if len = 5 then ret (copy_2_bytes s1 out1 from)
        else if len = 4 then ret (copy_1_bytes s1 out1 from)
        else if \<not> ndebug cfg then AssertFail s1
        else set_bytes_case2 cfg s1 out1 from len)"

definition set_bytes :: "build \<Rightarrow> heap \<Rightarrow> int \<Rightarrow> int \<Rightarrow> nat \<Rightarrow> nat \<Rightarrow> outcome" where
  "set_bytes cfg s out from dist len =
     (if \<not> ndebug cfg \<and> \<not> len < 8 then AssertFail s
      else if \<not> unaligned_ok cfg then ret (byte_loop s out from len)
      else if dist \<ge> len then copy_bytes cfg s out from len
      else if dist = 6 then
        (if \<not> ndebug cfg \<and> len \<noteq> 7 then AssertFail s
         else case copy_6_bytes s out from of (s1, out1) \<Rightarrow> ret (copy_1_bytes s1 out1 from))
      else if dist = 5 then
        (if \<not> ndebug cfg \<and> \<not> (len = 6 \<or> len = 7) then AssertFail s
         else case copy_5_bytes s out from of (s1, out1) \<Rightarrow>
           copy_bytes cfg s1 out1 from (len - 5))
      else if dist = 4 then
        (if \<not> ndebug cfg \<and> \<not> (len = 5 \<or> len = 6 \<or> len = 7) then AssertFail s
         else case copy_4_bytes s out from of (s1, out1) \<Rightarrow>
           copy_bytes cfg s1 out1 from (len - 4))
      else if dist = 3 then set_bytes_case3 cfg s out from len
      else if dist = 2 then set_bytes_case2 cfg s out from len
      else if dist = 1 then set_bytes_case1 cfg s out from len
      else Return s out)"

section \<open>Bulk copies\<close>

text \<open>
  Both bulk copiers and \<^verbatim>\<open>byte_memset\<close> share one shape: a switch on \<^verbatim>\<open>by8\<close> whose cases
  7 down to 1 fall through into each other, so that case \<open>k\<close> runs the step \<open>k\<close> times, and
  a loop that runs the step eight times per round while \<^verbatim>\<open>len\<close> is not zero. At the
  loop \<^verbatim>\<open>len\<close> is a multiple of 8 (it is \<^verbatim>\<open>len - len % 8\<close>), so \<^verbatim>\<open>len -= 8\<close> never wraps.
\<close>

definition switch_by8 :: "('t \<Rightarrow> 't) \<Rightarrow> nat \<Rightarrow> 't \<Rightarrow> 't" where
  "switch_by8 step by8 t =
     (if by8 = 7 then (step ^^ 7) t
      else if by8 = 6 then (step ^^ 6) t
      else if by8 = 5 then (step ^^ 5) t
      else if by8 = 4 then (step ^^ 4) t
      else if by8 = 3 then (step ^^ 3) t
      else if by8 = 2 then (step ^^ 2) t
      else if by8 = 1 then step t
      else t)"

fun while_len :: "('t \<Rightarrow> 't) \<Rightarrow> nat \<Rightarrow> 't \<Rightarrow> 't" where
  "while_len step len t = (if len = 0 then t else while_len step (len - 8) ((step ^^ 8) t))"

declare while_len.simps [simp del]

text \<open>\<^verbatim>\<open>out = copy_8_bytes(out, from); from += sz;\<close> and its 16-byte twin.\<close>

definition step8 :: "heap \<times> int \<times> int \<Rightarrow> heap \<times> int \<times> int" where
  "step8 t = (case t of (s, out, from) \<Rightarrow>
     (case copy_8_bytes s out from of (s1, out1) \<Rightarrow> (s1, out1, from + 8)))"

definition step16 :: "heap \<times> int \<times> int \<Rightarrow> heap \<times> int \<times> int" where
  "step16 t = (case t of (s, out, from) \<Rightarrow>
     (case copy_16_bytes s out from of (s1, out1) \<Rightarrow> (s1, out1, from + 16)))"

definition chunk_memcpy :: "build \<Rightarrow> heap \<Rightarrow> int \<Rightarrow> int \<Rightarrow> nat \<Rightarrow> outcome" where
  "chunk_memcpy cfg s out from len =
     (let sz = 8; rem = len mod sz in
      if \<not> ndebug cfg \<and> \<not> sz \<le> len then AssertFail s
      else
        let s1 = fst (copy_8_bytes s out from);
            len1 = len div sz;
            out1 = out + int rem;
            from1 = from + int rem;
            by8 = len1 mod 8;
            len2 = len1 - by8
        in case while_len step8 len2 (switch_by8 step8 by8 (s1, out1, from1)) of
             (s2, out2, from2) \<Rightarrow> Return s2 out2)"

definition chunk_memcpy_16 :: "build \<Rightarrow> heap \<Rightarrow> int \<Rightarrow> int \<Rightarrow> nat \<Rightarrow> outcome" where
  "chunk_memcpy_16 cfg s out from len =
     (let sz = 16; rem = len mod sz in
      if \<not> ndebug cfg \<and> \<not> sz \<le> len then AssertFail s
      else
        let s1 = fst (copy_16_bytes s out from);
            len1 = len div sz;
            out1 = out + int rem;
            from1 = from + int rem;
            by8 = len1 mod 8;
            len2 = len1 - by8
        in case while_len step16 len2 (switch_by8 step16 by8 (s1, out1, from1)) of
             (s2, out2, from2) \<Rightarrow> Return s2 out2)"

section \<open>Run fill\<close>

text \<open>\<^verbatim>\<open>MEMSET(out, c, sz); out += sz;\<close>\<close>

definition fill8 :: "byte \<Rightarrow> heap \<times> int \<Rightarrow> heap \<times> int" where
  "fill8 c t = (case t of (s, out) \<Rightarrow> (MEMSET s out c 8, out + 8))"

text \<open>
  In \<^verbatim>\<open>byte_memset\<close> the switch on \<^verbatim>\<open>by8\<close> ends in \<^verbatim>\<open>default: assert(0); break;\<close>. The
  label \<^verbatim>\<open>default\<close> stands after \<^verbatim>\<open>case 1\<close>, and no case ends in \<^verbatim>\<open>break\<close>, so control
  reaches \<^verbatim>\<open>assert(0)\<close> on every path through the switch: by fall-through from case 1
  when \<^verbatim>\<open>by8\<close> is 1 to 7, and by the jump to \<^verbatim>\<open>default\<close> when it is 0.
\<close>

definition byte_memset :: "build \<Rightarrow> heap \<Rightarrow> int \<Rightarrow> nat \<Rightarrow> outcome" where
  "byte_memset cfg s out len =
     (let sz = 8; from = out - 1; c = mem s from; rem = len mod sz in
      if \<not> ndebug cfg \<and> \<not> sz \<le> len then AssertFail s
      else
        let s1 = MEMSET s out c sz;
            len1 = len div sz;
            out1 = out + int rem;
            by8 = len1 mod 8;
            len2 = len1 - by8;
            t = switch_by8 (fill8 c) by8 (s1, out1)
        in if \<not> ndebug cfg then AssertFail (fst t)
           else ret (while_len (fill8 c) len2 t))"

section \<open>Pattern doubling and dispatch\<close>

text \<open>
  The doubling loop of \<^verbatim>\<open>chunk_memset\<close>. With \<^verbatim>\<open>dist = 0\<close> nothing changes from one round
  to the next and the loop does not end, so its result is an option.
\<close>

partial_function (option) chunk_memset_loop ::
  "build \<Rightarrow> heap \<Rightarrow> int \<Rightarrow> int \<Rightarrow> nat \<Rightarrow> nat \<Rightarrow> outcome option" where
  "chunk_memset_loop cfg s out from dist len =
     (if dist < len \<and> dist < 8 then
        (let s1 = fst (copy_8_bytes s out from);
             out1 = out + int dist;
             len1 = len - dist;
             dist1 = dist + dist
         in if len1 < 8 then Some (set_bytes cfg s1 out1 from dist1 len1)
            else chunk_memset_loop cfg s1 out1 from dist1 len1)
      else Some (chunk_memcpy cfg s out from len))"

declare chunk_memset_loop.simps [code]

definition chunk_memset ::
  "build \<Rightarrow> heap \<Rightarrow> int \<Rightarrow> int \<Rightarrow> nat \<Rightarrow> nat \<Rightarrow> outcome option" where
  "chunk_memset cfg s out from dist len =
     (if dist \<ge> len then Some (chunk_memcpy cfg s out from len)
      else if \<not> ndebug cfg \<and> \<not> 8 \<le> len then Some (AssertFail s)
      else chunk_memset_loop cfg s out from dist len)"

definition chunk_copy ::
  "build \<Rightarrow> heap \<Rightarrow> int \<Rightarrow> int \<Rightarrow> nat \<Rightarrow> nat \<Rightarrow> outcome option" where
  "chunk_copy cfg s out from dist len =
     (if len < 8 then
        (if dist > 0 then Some (set_bytes cfg s out from dist len)
         else Some (copy_bytes cfg s out from len))
      else if dist = 1 then Some (byte_memset cfg s out len)
      else if dist > 0 then chunk_memset cfg s out from dist len
      else Some (chunk_memcpy cfg s out from len))"

definition fast_copy :: "build \<Rightarrow> heap \<Rightarrow> int \<Rightarrow> int \<Rightarrow> nat \<Rightarrow> outcome" where
  "fast_copy cfg s out from len =
     (if len < 8 then copy_bytes cfg s out from len
      else if sse2 cfg then
        (if len < 16 then chunk_memcpy cfg s out from len
         else chunk_memcpy_16 cfg s out from len)
      else chunk_memcpy cfg s out from len)"

text \<open>
  The local \<^verbatim>\<open>sz\<close> of \<^verbatim>\<open>safe_copy\<close>: \<^verbatim>\<open>sizeof(__m128i)\<close> with SSE2, \<^verbatim>\<open>sizeof(uint64_t)\<close>
  without. \<^verbatim>\<open>labs(from - out) < sz\<close> compares the distance of the two cursors with it.
\<close>

definition chunk_width :: "build \<Rightarrow> nat" where
  "chunk_width cfg = (if sse2 cfg then 16 else 8)"

definition safe_copy :: "build \<Rightarrow> heap \<Rightarrow> int \<Rightarrow> int \<Rightarrow> nat \<Rightarrow> outcome" where
  "safe_copy cfg s out from len =
     (let sz = chunk_width cfg in
      if \<bar>from - out\<bar> < int sz then ret (byte_loop s out from len)
      else fast_copy cfg s out from len)"

section \<open>Definitions that follow the wording of the claims\<close>

text \<open>
  The doubling loop as C10 describes it: no \<^verbatim>\<open>from\<close> is carried along; every
  \<^verbatim>\<open>copy_8_bytes\<close> and the final \<^verbatim>\<open>set_bytes\<close> or \<^verbatim>\<open>chunk_memcpy\<close> read from the
  address \<open>dist\<close> bytes behind the current write cursor, computed afresh from the
  current \<open>out\<close> and \<open>dist\<close>.
\<close>

partial_function (option) chunk_memset_loop_behind ::
  "build \<Rightarrow> heap \<Rightarrow> int \<Rightarrow> nat \<Rightarrow> nat \<Rightarrow> outcome option" where
  "chunk_memset_loop_behind cfg s out dist len =
     (if dist < len \<and> dist < 8 then
        (let s1 = fst (copy_8_bytes s out (out - int dist));
             out1 = out + int dist;
             len1 = len - dist;
             dist1 = dist + dist
         in if len1 < 8 then Some (set_bytes cfg s1 out1 (out1 - int dist1) dist1 len1)
            else chunk_memset_loop_behind cfg s1 out1 dist1 len1)
      else Some (chunk_memcpy cfg s out (out - int dist) len))"

declare chunk_memset_loop_behind.simps [code]

text \<open>
  The element-by-element left-to-right copy of C7: for \<open>i = 0, 1, \<dots>, len - 1\<close> in this
  order, the byte at \<open>from + i\<close> is read and stored at \<open>out + i\<close>.
\<close>

definition bytewise_copy :: "heap \<Rightarrow> int \<Rightarrow> int \<Rightarrow> nat \<Rightarrow> heap" where
  "bytewise_copy s out from len =
     fold (\<lambda>i h. store h (out + int i) [mem h (from + int i)]) [0..<len] s"

text \<open>
  The plain memory copy of C6: the \<open>len\<close> source bytes are read as they are before the
  call and stored at \<open>out\<close>.
\<close>

definition plain_copy :: "heap \<Rightarrow> int \<Rightarrow> int \<Rightarrow> nat \<Rightarrow> heap" where
  "plain_copy s out from len = store s out (load s from len)"

text \<open>
  The footprint of a call, for C8 and C9: against the store \<open>s\<close> before the call, the
  store \<open>s'\<close> after it has new written addresses in \<open>[lo, hi)\<close> only, and the same
  contents everywhere outside \<open>[lo, hi)\<close>.
\<close>

abbreviation within :: "heap \<Rightarrow> int \<Rightarrow> int \<Rightarrow> heap \<Rightarrow> bool" where
  "within s lo hi s' \<equiv>
     wr s' \<subseteq> wr s \<union> {lo ..< hi} \<and> (\<forall>x. \<not> (lo \<le> x \<and> x < hi) \<longrightarrow> mem s' x = mem s x)"

section \<open>Concrete builds and stores\<close>

definition debug_build :: build where
  "debug_build = \<lparr>ndebug = False, unaligned_ok = True, sse2 = True\<rparr>"

definition release_build :: build where
  "release_build = \<lparr>ndebug = True, unaligned_ok = True, sse2 = True\<rparr>"

definition plain_build :: build where
  "plain_build = \<lparr>ndebug = False, unaligned_ok = False, sse2 = False\<rparr>"

text \<open>A store of zeros with the byte \<open>0x7A\<close> at address 99, nothing written yet.\<close>

definition heap_7A :: heap where
  "heap_7A = \<lparr>mem = (\<lambda>a. if a = 99 then 0x7A else 0), wr = {}\<rparr>"

text \<open>
  A store holding the letters A, B, C, D at addresses 96 to 99, and one whose byte at
  address \<open>a\<close> is \<open>a mod 256\<close>.
\<close>

definition heap_abcd :: heap where
  "heap_abcd = \<lparr>mem = (\<lambda>a. if a = 96 then 0x41 else if a = 97 then 0x42
                          else if a = 98 then 0x43 else if a = 99 then 0x44 else 0),
                wr = {}\<rparr>"

definition heap_ramp :: heap where
  "heap_ramp = \<lparr>mem = (\<lambda>a. word_of_int a), wr = {}\<rparr>"

text \<open>
  The same contents with the three bytes at 97, 98, 99 marked as written: the output
  produced so far, in front of a write cursor at 100.
\<close>

definition heap_out3 :: heap where
  "heap_out3 = \<lparr>mem = (\<lambda>a. word_of_int a), wr = {97 ..< 100}\<rparr>"

section \<open>Loads, stores and the unrolled loops\<close>

lemma mem_store:
  "mem (store s a bs) x =
     (if a \<le> x \<and> x < a + int (length bs) then bs ! nat (x - a) else mem s x)"
proof (induction bs arbitrary: s a x)
  case Nil
  then show ?case by auto
next
  case (Cons b bs)
  show ?case
  proof (cases "x = a")
    case True
    then show ?thesis by (simp add: Cons.IH)
  next
    case False
    have "a + 1 \<le> x \<Longrightarrow> nat (x - (a + 1)) = nat (x - a) - Suc 0"
      by arith
    with False show ?thesis
      by (auto simp add: Cons.IH nth_Cons')
  qed
qed

lemma wr_store: "wr (store s a bs) = wr s \<union> {a ..< a + int (length bs)}"
proof (induction bs arbitrary: s a)
  case Nil
  then show ?case by simp
next
  case (Cons b bs)
  show ?case by (auto simp add: Cons.IH)
qed

lemma mem_via_chunk:
  "mem (via_chunk s out from n) x =
     (if out \<le> x \<and> x < out + int n then mem s (from + (x - out)) else mem s x)"
proof (cases "out \<le> x \<and> x < out + int n")
  case True
  then have "nat (x - out) < n" by auto
  with True show ?thesis by (simp add: via_chunk_def mem_store load_def)
next
  case False
  then show ?thesis by (auto simp add: via_chunk_def mem_store load_def)
qed

lemma wr_via_chunk: "wr (via_chunk s out from n) = wr s \<union> {out ..< out + int n}"
  by (simp add: via_chunk_def wr_store load_def)

lemma mem_MEMSET:
  "mem (MEMSET s out c n) x = (if out \<le> x \<and> x < out + int n then c else mem s x)"
proof (cases "out \<le> x \<and> x < out + int n")
  case True
  then have "nat (x - out) < n" by auto
  with True show ?thesis by (simp add: MEMSET_def mem_store)
next
  case False
  then show ?thesis by (auto simp add: MEMSET_def mem_store)
qed

lemma wr_MEMSET: "wr (MEMSET s out c n) = wr s \<union> {out ..< out + int n}"
  by (simp add: MEMSET_def wr_store)

lemma mem_store1: "mem (store s a [b]) x = (if x = a then b else mem s x)"
  by simp

lemma wr_store1: "wr (store s a [b]) = insert a (wr s)"
  by simp

lemma switch_by8_pow: "by8 < 8 \<Longrightarrow> switch_by8 step by8 t = (step ^^ by8) t"
proof -
  assume "by8 < 8"
  then consider "by8 = 0" | "by8 = 1" | "by8 = 2" | "by8 = 3" | "by8 = 4" | "by8 = 5"
    | "by8 = 6" | "by8 = 7"
    by linarith
  then show ?thesis
    by cases (simp_all add: switch_by8_def)
qed

lemma while_len_pow: "while_len step (8 * k) t = (step ^^ (8 * k)) t"
proof (induction k arbitrary: t)
  case 0
  then show ?case by (simp add: while_len.simps)
next
  case (Suc k)
  have "while_len step (8 * Suc k) t = while_len step (8 * k) ((step ^^ 8) t)"
    by (subst while_len.simps) simp
  also have "\<dots> = (step ^^ (8 * k)) ((step ^^ 8) t)"
    by (rule Suc.IH)
  also have "\<dots> = (step ^^ (8 * k + 8)) t"
    by (simp only: funpow_add o_apply)
  finally show ?case by (simp add: add.commute)
qed

text \<open>
  The loop counter handed to \<open>while_len\<close> is \<open>n - n mod 8\<close>, a multiple of 8, so the
  \<^verbatim>\<open>len -= 8\<close> of the source never wraps and the loop runs \<open>n div 8\<close> rounds.
\<close>

lemma loop_counter_multiple: "8 dvd (n - n mod 8)" for n :: nat
  by (simp add: minus_mod_eq_mult_div)

lemma unrolled_pow:
  "while_len step (n - n mod 8) (switch_by8 step (n mod 8) t) = (step ^^ n) t"
proof -
  have "n - n mod 8 = 8 * (n div 8)"
    by (simp add: minus_mod_eq_mult_div)
  then have "while_len step (n - n mod 8) (switch_by8 step (n mod 8) t)
      = (step ^^ (8 * (n div 8))) ((step ^^ (n mod 8)) t)"
    by (simp add: while_len_pow switch_by8_pow)
  also have "\<dots> = (step ^^ (8 * (n div 8) + n mod 8)) t"
    by (simp only: funpow_add o_apply)
  finally show ?thesis by simp
qed

section \<open>Sequences of chunk copies\<close>

lemma pow_chunks:
  assumes step: "\<And>s o' f. step (s, o', f) = (via_chunk s o' f n, o' + int n, f + int n)"
  shows "\<exists>s'. (step ^^ k) (s, out, from) = (s', out + int (n * k), from + int (n * k))
      \<and> wr s' = wr s \<union> {out ..< out + int (n * k)}
      \<and> (\<forall>x. \<not> (out \<le> x \<and> x < out + int (n * k)) \<longrightarrow> mem s' x = mem s x)
      \<and> (from + int n \<le> out \<longrightarrow>
           (\<forall>x. out \<le> x \<and> x < out + int (n * k) \<longrightarrow> mem s' x = mem s' (x - (out - from))))
      \<and> (out \<le> from \<longrightarrow>
           (\<forall>x. out \<le> x \<and> x < out + int (n * k) \<longrightarrow> mem s' x = mem s (x + (from - out))))"
proof (induction k)
  case 0
  then show ?case by auto
next
  case (Suc k)
  define m where "m = int (n * k)"
  have m0: "0 \<le> m" by (simp add: m_def)
  have eq: "int (n * Suc k) = m + int n" by (simp add: m_def)
  from Suc[folded m_def] obtain s1 where
    run: "(step ^^ k) (s, out, from) = (s1, out + m, from + m)"
    and w: "wr s1 = wr s \<union> {out ..< out + m}"
    and fr: "\<And>x. \<not> (out \<le> x \<and> x < out + m) \<Longrightarrow> mem s1 x = mem s x"
    and sp: "\<And>x. from + int n \<le> out \<Longrightarrow> out \<le> x \<Longrightarrow> x < out + m
               \<Longrightarrow> mem s1 x = mem s1 (x - (out - from))"
    and mv: "\<And>x. out \<le> from \<Longrightarrow> out \<le> x \<Longrightarrow> x < out + m
               \<Longrightarrow> mem s1 x = mem s (x + (from - out))"
    by blast
  let ?s2 = "via_chunk s1 (out + m) (from + m) n"
  have run': "(step ^^ Suc k) (s, out, from) = (?s2, out + int (n * Suc k), from + int (n * Suc k))"
    unfolding eq by (simp add: run step add.assoc)
  have w': "wr ?s2 = wr s \<union> {out ..< out + int (n * Suc k)}"
    unfolding eq using m0 by (auto simp add: wr_via_chunk w)
  have fr': "\<forall>x. \<not> (out \<le> x \<and> x < out + int (n * Suc k)) \<longrightarrow> mem ?s2 x = mem s x"
    unfolding eq using m0 by (auto simp add: mem_via_chunk fr)
  have sp': "from + int n \<le> out \<longrightarrow>
      (\<forall>x. out \<le> x \<and> x < out + int (n * Suc k) \<longrightarrow> mem ?s2 x = mem ?s2 (x - (out - from)))"
  proof (intro impI allI)
    fix x
    assume d: "from + int n \<le> out" and x: "out \<le> x \<and> x < out + int (n * Suc k)"
    show "mem ?s2 x = mem ?s2 (x - (out - from))"
    proof (cases "x < out + m")
      case True
      with d x m0 sp[of x] show ?thesis by (simp add: mem_via_chunk)
    next
      case False
      have "mem s1 (from + (x - out)) = mem s1 (x - (out - from))"
        by (rule arg_cong[where f = "mem s1"]) simp
      with False d x m0 show ?thesis unfolding eq by (simp add: mem_via_chunk)
    qed
  qed
  have mv': "out \<le> from \<longrightarrow>
      (\<forall>x. out \<le> x \<and> x < out + int (n * Suc k) \<longrightarrow> mem ?s2 x = mem s (x + (from - out)))"
  proof (intro impI allI)
    fix x
    assume d: "out \<le> from" and x: "out \<le> x \<and> x < out + int (n * Suc k)"
    show "mem ?s2 x = mem s (x + (from - out))"
    proof (cases "x < out + m")
      case True
      with d x m0 mv[of x] show ?thesis by (simp add: mem_via_chunk)
    next
      case False
      have "mem s1 (from + (x - out)) = mem s1 (x + (from - out))"
        by (rule arg_cong[where f = "mem s1"]) simp
      moreover have "\<not> (out \<le> x + (from - out) \<and> x + (from - out) < out + m)"
        using False d by simp
      ultimately show ?thesis using False d x m0 fr[of "x + (from - out)"]
        unfolding eq by (simp add: mem_via_chunk)
    qed
  qed
  from run' w' fr' sp' mv' show ?case by blast
qed

lemma bulk_copy:
  assumes step: "\<And>s o' f. step (s, o', f) = (via_chunk s o' f n, o' + int n, f + int n)"
    and n: "0 < n" and len: "n \<le> len"
  shows "\<exists>s'. (step ^^ (len div n))
           (via_chunk s out from n, out + int (len mod n), from + int (len mod n))
         = (s', out + int len, from + int len)
      \<and> wr s' = wr s \<union> {out ..< out + int len}
      \<and> (\<forall>x. \<not> (out \<le> x \<and> x < out + int len) \<longrightarrow> mem s' x = mem s x)
      \<and> (from + int n \<le> out \<longrightarrow>
           (\<forall>x. out \<le> x \<and> x < out + int len \<longrightarrow> mem s' x = mem s' (x - (out - from))))
      \<and> (out + int n \<le> from \<longrightarrow>
           (\<forall>x. out \<le> x \<and> x < out + int len \<longrightarrow> mem s' x = mem s (x + (from - out))))"
proof -
  define r where "r = int (len mod n)"
  define m where "m = int (n * (len div n))"
  define s0 where "s0 = via_chunk s out from n"
  have r0: "0 \<le> r" and rn: "r < int n"
    using n by (simp_all add: r_def)
  have total: "r + m = int len"
  proof -
    have "len mod n + n * (len div n) = len" by simp
    then have "int (len mod n) + int (n * (len div n)) = int len"
      by (simp only: of_nat_add[symmetric])
    then show ?thesis by (simp only: r_def m_def)
  qed
  have mn: "int n \<le> m"
  proof -
    have "0 < len div n" using n len by (simp add: div_greater_zero_iff)
    then have "n \<le> n * (len div n)" by simp
    then have "int n \<le> int (n * (len div n))" by (simp only: of_nat_le_iff)
    then show ?thesis by (simp only: m_def)
  qed
  have diff: "(out + r) - (from + r) = out - from" "(from + r) - (out + r) = from - out"
    by simp_all
  from pow_chunks[OF step, of "len div n" s0 "out + r" "from + r", folded m_def, unfolded diff]
  obtain s' where
    run: "(step ^^ (len div n)) (s0, out + r, from + r) = (s', out + r + m, from + r + m)"
    and w: "wr s' = wr s0 \<union> {out + r ..< out + r + m}"
    and fr: "\<And>x. \<not> (out + r \<le> x \<and> x < out + r + m) \<Longrightarrow> mem s' x = mem s0 x"
    and sp: "\<And>x. from + r + int n \<le> out + r \<Longrightarrow> out + r \<le> x \<Longrightarrow> x < out + r + m
               \<Longrightarrow> mem s' x = mem s' (x - (out - from))"
    and mv: "\<And>x. out + r \<le> from + r \<Longrightarrow> out + r \<le> x \<Longrightarrow> x < out + r + m
               \<Longrightarrow> mem s' x = mem s0 (x + (from - out))"
    by blast
  have run': "(step ^^ (len div n))
           (via_chunk s out from n, out + int (len mod n), from + int (len mod n))
         = (s', out + int len, from + int len)"
    using run total by (simp add: s0_def r_def add.assoc)
  have w': "wr s' = wr s \<union> {out ..< out + int len}"
    using r0 rn mn total by (auto simp add: w s0_def wr_via_chunk)
  have fr': "\<forall>x. \<not> (out \<le> x \<and> x < out + int len) \<longrightarrow> mem s' x = mem s x"
    using r0 rn mn total by (auto simp add: fr s0_def mem_via_chunk)
  have sp': "from + int n \<le> out \<longrightarrow>
           (\<forall>x. out \<le> x \<and> x < out + int len \<longrightarrow> mem s' x = mem s' (x - (out - from)))"
  proof (intro impI allI)
    fix x
    assume d: "from + int n \<le> out" and x: "out \<le> x \<and> x < out + int len"
    show "mem s' x = mem s' (x - (out - from))"
    proof (cases "x < out + r")
      case True
      have "mem s' x = mem s0 x" using True by (simp add: fr)
      also have "\<dots> = mem s (from + (x - out))"
        using True x rn by (simp add: s0_def mem_via_chunk)
      also have "\<dots> = mem s (x - (out - from))"
        by (rule arg_cong[where f = "mem s"]) simp
      also have "\<dots> = mem s0 (x - (out - from))"
        using True d rn x by (simp add: s0_def mem_via_chunk)
      also have "\<dots> = mem s' (x - (out - from))"
        using True d rn r0 x by (simp add: fr)
      finally show ?thesis .
    next
      case False
      with d x total sp[of x] show ?thesis by simp
    qed
  qed
  have mv': "out + int n \<le> from \<longrightarrow>
           (\<forall>x. out \<le> x \<and> x < out + int len \<longrightarrow> mem s' x = mem s (x + (from - out)))"
  proof (intro impI allI)
    fix x
    assume d: "out + int n \<le> from" and x: "out \<le> x \<and> x < out + int len"
    show "mem s' x = mem s (x + (from - out))"
    proof (cases "x < out + r")
      case True
      have "mem s' x = mem s0 x" using True by (simp add: fr)
      also have "\<dots> = mem s (from + (x - out))"
        using True x rn by (simp add: s0_def mem_via_chunk)
      also have "\<dots> = mem s (x + (from - out))"
        by (rule arg_cong[where f = "mem s"]) simp
      finally show ?thesis .
    next
      case False
      have "mem s' x = mem s0 (x + (from - out))"
        using False d x total n mv[of x] by simp
      also have "\<dots> = mem s (x + (from - out))"
        using False d x r0 by (simp add: s0_def mem_via_chunk)
      finally show ?thesis .
    qed
  qed
  from run' w' fr' sp' mv' show ?thesis by blast
qed

lemma step8_eq: "step8 (s, o', f) = (via_chunk s o' f 8, o' + int 8, f + int 8)"
  by (simp add: step8_def copy_8_bytes_def)

lemma step16_eq: "step16 (s, o', f) = (via_chunk s o' f 16, o' + int 16, f + int 16)"
  by (simp add: step16_def copy_16_bytes_def)

lemma chunk_memcpy_run:
  assumes len: "8 \<le> len"
  shows "\<exists>s'. chunk_memcpy cfg s out from len = Return s' (out + int len)
      \<and> wr s' = wr s \<union> {out ..< out + int len}
      \<and> (\<forall>x. \<not> (out \<le> x \<and> x < out + int len) \<longrightarrow> mem s' x = mem s x)
      \<and> (from + 8 \<le> out \<longrightarrow>
           (\<forall>x. out \<le> x \<and> x < out + int len \<longrightarrow> mem s' x = mem s' (x - (out - from))))
      \<and> (out + 8 \<le> from \<longrightarrow>
           (\<forall>x. out \<le> x \<and> x < out + int len \<longrightarrow> mem s' x = mem s (x + (from - out))))"
proof -
  from bulk_copy[of step8 8 len s out "from", OF step8_eq _ len]
  obtain s' where
    run: "(step8 ^^ (len div 8))
           (via_chunk s out from 8, out + int (len mod 8), from + int (len mod 8))
         = (s', out + int len, from + int len)"
    and rest: "wr s' = wr s \<union> {out ..< out + int len}
      \<and> (\<forall>x. \<not> (out \<le> x \<and> x < out + int len) \<longrightarrow> mem s' x = mem s x)
      \<and> (from + 8 \<le> out \<longrightarrow>
           (\<forall>x. out \<le> x \<and> x < out + int len \<longrightarrow> mem s' x = mem s' (x - (out - from))))
      \<and> (out + 8 \<le> from \<longrightarrow>
           (\<forall>x. out \<le> x \<and> x < out + int len \<longrightarrow> mem s' x = mem s (x + (from - out))))"
    by auto
  have "chunk_memcpy cfg s out from len = Return s' (out + int len)"
    using len by (simp add: chunk_memcpy_def Let_def unrolled_pow copy_8_bytes_def run)
  with rest show ?thesis by blast
qed

lemma chunk_memcpy_16_run:
  assumes len: "16 \<le> len"
  shows "\<exists>s'. chunk_memcpy_16 cfg s out from len = Return s' (out + int len)
      \<and> wr s' = wr s \<union> {out ..< out + int len}
      \<and> (\<forall>x. \<not> (out \<le> x \<and> x < out + int len) \<longrightarrow> mem s' x = mem s x)"
proof -
  from bulk_copy[of step16 16 len s out "from", OF step16_eq _ len]
  obtain s' where
    run: "(step16 ^^ (len div 16))
           (via_chunk s out from 16, out + int (len mod 16), from + int (len mod 16))
         = (s', out + int len, from + int len)"
    and rest: "wr s' = wr s \<union> {out ..< out + int len}
      \<and> (\<forall>x. \<not> (out \<le> x \<and> x < out + int len) \<longrightarrow> mem s' x = mem s x)"
    by auto
  have "chunk_memcpy_16 cfg s out from len = Return s' (out + int len)"
    using len by (simp add: chunk_memcpy_16_def Let_def unrolled_pow copy_16_bytes_def run)
  with rest show ?thesis by blast
qed

section \<open>Run fill and the byte loop\<close>

lemma store_append: "store s a (xs @ ys) = store (store s a xs) (a + int (length xs)) ys"
  by (induction xs arbitrary: s a) (simp_all add: add.assoc)

lemma fill8_pow: "(fill8 c ^^ k) (s, out) = (MEMSET s out c (8 * k), out + int (8 * k))"
proof (induction k)
  case 0
  then show ?case by (simp add: MEMSET_def)
next
  case (Suc k)
  have "replicate (8 * Suc k) c = replicate (8 * k) c @ replicate 8 c"
    by (simp add: replicate_add[symmetric])
  then have "MEMSET s out c (8 * Suc k) = MEMSET (MEMSET s out c (8 * k)) (out + int (8 * k)) c 8"
    by (simp only: MEMSET_def store_append length_replicate)
  then have m: "MEMSET (MEMSET s out c (8 * k)) (out + int (8 * k)) c 8 = MEMSET s out c (8 * Suc k)"
    by (rule sym)
  have "(fill8 c ^^ Suc k) (s, out) = fill8 c ((fill8 c ^^ k) (s, out))"
    by simp
  also have "\<dots> = fill8 c (MEMSET s out c (8 * k), out + int (8 * k))"
    by (simp only: Suc.IH)
  also have "\<dots> = (MEMSET (MEMSET s out c (8 * k)) (out + int (8 * k)) c 8, out + int (8 * k) + 8)"
    by (simp add: fill8_def)
  also have "\<dots> = (MEMSET s out c (8 * Suc k), out + int (8 * Suc k))"
    by (simp only: m) simp
  finally show ?case .
qed

lemma byte_memset_release:
  assumes nd: "ndebug cfg" and len: "8 \<le> len"
  shows "\<exists>s'. byte_memset cfg s out len = Return s' (out + int len)
      \<and> wr s' = wr s \<union> {out ..< out + int len}
      \<and> (\<forall>x. mem s' x = (if out \<le> x \<and> x < out + int len then mem s (out - 1) else mem s x))"
proof -
  define c where "c = mem s (out - 1)"
  define r where "r = int (len mod 8)"
  define m where "m = int (8 * (len div 8))"
  define s' where "s' = MEMSET (MEMSET s out c 8) (out + r) c (8 * (len div 8))"
  have r0: "0 \<le> r" and r8: "r < 8" by (simp_all add: r_def)
  have total: "r + m = int len"
  proof -
    have "len mod 8 + 8 * (len div 8) = len" by simp
    then have "int (len mod 8) + int (8 * (len div 8)) = int len"
      by (simp only: of_nat_add[symmetric])
    then show ?thesis by (simp only: r_def m_def)
  qed
  have m8: "8 \<le> m" using len by (simp add: m_def)
  have "byte_memset cfg s out len = Return s' (out + int len)"
    using nd len total
    by (simp add: byte_memset_def Let_def unrolled_pow fill8_pow ret_def s'_def c_def r_def m_def
        add.assoc)
  moreover have "wr s' = wr s \<union> {out ..< out + int len}"
    using r0 r8 m8 total by (auto simp add: s'_def wr_MEMSET m_def)
  moreover have "\<forall>x. mem s' x = (if out \<le> x \<and> x < out + int len then mem s (out - 1) else mem s x)"
    using r0 r8 m8 total by (auto simp add: s'_def mem_MEMSET m_def c_def)
  ultimately show ?thesis by blast
qed

lemma byte_memset_debug: "\<not> ndebug cfg \<Longrightarrow> aborted (byte_memset cfg s out len)"
  by (simp add: byte_memset_def Let_def)

lemma byte_loop_snoc:
  "byte_loop s out from (Suc n) =
     (case byte_loop s out from n of (s1, out1) \<Rightarrow>
        (store s1 out1 [mem s1 (from + int n)], out1 + 1))"
proof (induction n arbitrary: s out "from")
  case 0
  then show ?case by simp
next
  case (Suc n)
  define s0 where "s0 = store s out [mem s from]"
  have L: "byte_loop s out from (Suc (Suc n)) = byte_loop s0 (out + 1) (from + 1) (Suc n)"
    by (simp add: s0_def)
  have R: "byte_loop s out from (Suc n) = byte_loop s0 (out + 1) (from + 1) n"
    by (simp add: s0_def)
  have e: "from + 1 + int n = from + int (Suc n)"
    by simp
  show ?case
    unfolding L R Suc.IH[of s0 "out + 1" "from + 1"] e by (rule refl)
qed

lemma byte_loop_run:
  "\<exists>s'. byte_loop s out from n = (s', out + int n)
      \<and> wr s' = wr s \<union> {out ..< out + int n}
      \<and> (\<forall>x. \<not> (out \<le> x \<and> x < out + int n) \<longrightarrow> mem s' x = mem s x)
      \<and> (from < out \<longrightarrow>
           (\<forall>x. out \<le> x \<and> x < out + int n \<longrightarrow> mem s' x = mem s' (x - (out - from))))
      \<and> (out \<le> from \<longrightarrow>
           (\<forall>x. out \<le> x \<and> x < out + int n \<longrightarrow> mem s' x = mem s (x + (from - out))))"
proof (induction n)
  case 0
  then show ?case by auto
next
  case (Suc n)
  then obtain s1 where
    run: "byte_loop s out from n = (s1, out + int n)"
    and w: "wr s1 = wr s \<union> {out ..< out + int n}"
    and fr: "\<And>x. \<not> (out \<le> x \<and> x < out + int n) \<Longrightarrow> mem s1 x = mem s x"
    and sp: "\<And>x. from < out \<Longrightarrow> out \<le> x \<Longrightarrow> x < out + int n
               \<Longrightarrow> mem s1 x = mem s1 (x - (out - from))"
    and mv: "\<And>x. out \<le> from \<Longrightarrow> out \<le> x \<Longrightarrow> x < out + int n
               \<Longrightarrow> mem s1 x = mem s (x + (from - out))"
    by blast
  let ?s2 = "store s1 (out + int n) [mem s1 (from + int n)]"
  have run': "byte_loop s out from (Suc n) = (?s2, out + int (Suc n))"
    by (simp only: byte_loop_snoc run) (simp add: add.assoc)
  have w': "wr ?s2 = wr s \<union> {out ..< out + int (Suc n)}"
    by (auto simp add: w)
  have fr': "\<forall>x. \<not> (out \<le> x \<and> x < out + int (Suc n)) \<longrightarrow> mem ?s2 x = mem s x"
    by (auto simp add: fr)
  have sp': "from < out \<longrightarrow>
      (\<forall>x. out \<le> x \<and> x < out + int (Suc n) \<longrightarrow> mem ?s2 x = mem ?s2 (x - (out - from)))"
  proof (intro impI allI)
    fix x
    assume d: "from < out" and x: "out \<le> x \<and> x < out + int (Suc n)"
    show "mem ?s2 x = mem ?s2 (x - (out - from))"
    proof (cases "x = out + int n")
      case True
      have "mem s1 (from + int n) = mem s1 (out + int n - (out - from))"
        by (rule arg_cong[where f = "mem s1"]) simp
      with True d show ?thesis by simp
    next
      case False
      with d x sp[of x] show ?thesis by simp
    qed
  qed
  have mv': "out \<le> from \<longrightarrow>
      (\<forall>x. out \<le> x \<and> x < out + int (Suc n) \<longrightarrow> mem ?s2 x = mem s (x + (from - out)))"
  proof (intro impI allI)
    fix x
    assume d: "out \<le> from" and x: "out \<le> x \<and> x < out + int (Suc n)"
    show "mem ?s2 x = mem s (x + (from - out))"
    proof (cases "x = out + int n")
      case True
      have "mem s1 (from + int n) = mem s (from + int n)"
        using d by (simp add: fr)
      also have "\<dots> = mem s (out + int n + (from - out))"
        by (rule arg_cong[where f = "mem s"]) simp
      finally show ?thesis using True by simp
    next
      case False
      with d x mv[of x] show ?thesis by simp
    qed
  qed
  from run' w' fr' sp' mv' show ?case by blast
qed

section \<open>The short dispatchers\<close>

lemmas copy_defs = copy_1_bytes_def copy_2_bytes_def copy_3_bytes_def copy_4_bytes_def
  copy_5_bytes_def copy_6_bytes_def copy_7_bytes_def copy_8_bytes_def ret_def

lemmas heap_simps = mem_via_chunk wr_via_chunk mem_store1 wr_store1 mem_MEMSET wr_MEMSET

lemma all_less_numeral:
  "(\<forall>i<numeral k. P i) = ((\<forall>i<pred_numeral k. P i) \<and> P (pred_numeral k))"
  by (auto simp add: numeral_eq_Suc less_Suc_eq)

lemma index_to_addr:
  assumes "\<forall>i<n. P (out + int i)" and "out \<le> x" and "x < out + int n"
  shows "P x"
proof -
  have "nat (x - out) < n" using assms(2,3) by simp
  with assms(1) have "P (out + int (nat (x - out)))" by blast
  with assms(2) show ?thesis by simp
qed

lemma len_cases:
  "len < (8::nat) \<Longrightarrow>
     len = 0 \<or> len = 1 \<or> len = 2 \<or> len = 3 \<or> len = 4 \<or> len = 5 \<or> len = 6 \<or> len = 7"
  by linarith

lemma copy_bytes_run:
  assumes len: "len < 8" and apart: "from + int len \<le> out \<or> out \<le> from"
  shows "\<exists>s'. copy_bytes cfg s out from len = Return s' (out + int len)
      \<and> wr s' = wr s \<union> {out ..< out + int len}
      \<and> (\<forall>x. \<not> (out \<le> x \<and> x < out + int len) \<longrightarrow> mem s' x = mem s x)
      \<and> (\<forall>i<len. mem s' (out + int i) = mem s (from + int i))"
proof (cases "unaligned_ok cfg")
  case False
  from byte_loop_run[of s out "from" len] obtain s' where
    run: "byte_loop s out from len = (s', out + int len)"
    and w: "wr s' = wr s \<union> {out ..< out + int len}"
    and fr: "\<And>x. \<not> (out \<le> x \<and> x < out + int len) \<Longrightarrow> mem s' x = mem s x"
    and sp: "\<And>x. from < out \<Longrightarrow> out \<le> x \<Longrightarrow> x < out + int len
               \<Longrightarrow> mem s' x = mem s' (x - (out - from))"
    and mv: "\<And>x. out \<le> from \<Longrightarrow> out \<le> x \<Longrightarrow> x < out + int len
               \<Longrightarrow> mem s' x = mem s (x + (from - out))"
    by blast
  have "copy_bytes cfg s out from len = Return s' (out + int len)"
    using False len by (simp add: copy_bytes_def run ret_def)
  moreover have "\<forall>i<len. mem s' (out + int i) = mem s (from + int i)"
  proof (intro allI impI)
    fix i assume i: "i < len"
    show "mem s' (out + int i) = mem s (from + int i)"
    proof (cases "out \<le> from")
      case True
      have "mem s' (out + int i) = mem s (out + int i + (from - out))"
        using True i by (simp add: mv)
      also have "\<dots> = mem s (from + int i)"
        by (rule arg_cong[where f = "mem s"]) simp
      finally show ?thesis .
    next
      case False
      with apart have a: "from + int len \<le> out" by simp
      have "mem s' (out + int i) = mem s' (out + int i - (out - from))"
        using False i by (simp add: sp)
      also have "\<dots> = mem s' (from + int i)"
        by (rule arg_cong[where f = "mem s'"]) simp
      also have "\<dots> = mem s (from + int i)"
        using a i by (simp add: fr)
      finally show ?thesis .
    qed
  qed
  ultimately show ?thesis using w fr by blast
next
  case True
  from len_cases[OF len] show ?thesis
    using True apart
    by (elim disjE)
      (auto simp add: copy_bytes_def copy_defs heap_simps all_less_numeral
        simp del: store.simps intro!: arg_cong[where f = "mem s"])
qed

lemma copy_bytes_frame:
  assumes len: "len < 8"
  shows "\<exists>s'. copy_bytes cfg s out from len = Return s' (out + int len)
      \<and> wr s' = wr s \<union> {out ..< out + int len}
      \<and> (\<forall>x. \<not> (out \<le> x \<and> x < out + int len) \<longrightarrow> mem s' x = mem s x)"
proof (cases "unaligned_ok cfg")
  case False
  from byte_loop_run[of s out "from" len] obtain s' where
    run: "byte_loop s out from len = (s', out + int len)"
    and w: "wr s' = wr s \<union> {out ..< out + int len}"
    and fr: "\<And>x. \<not> (out \<le> x \<and> x < out + int len) \<Longrightarrow> mem s' x = mem s x"
    by blast
  have "copy_bytes cfg s out from len = Return s' (out + int len)"
    using False len by (simp add: copy_bytes_def run ret_def)
  then show ?thesis using w fr by blast
next
  case True
  from len_cases[OF len] show ?thesis
    using True
    by (elim disjE)
      (auto simp add: copy_bytes_def copy_defs heap_simps simp del: store.simps)
qed

lemmas set_defs = set_bytes_def set_bytes_case1_def set_bytes_case2_def set_bytes_case3_def
  copy_bytes_def

lemma pair_cases:
  assumes "1 \<le> d" and "d < len" and "len < (8::nat)"
  shows "(d = 1 \<and> (len = 2 \<or> len = 3 \<or> len = 4 \<or> len = 5 \<or> len = 6 \<or> len = 7))
       \<or> (d = 2 \<and> (len = 3 \<or> len = 4 \<or> len = 5 \<or> len = 6 \<or> len = 7))
       \<or> (d = 3 \<and> (len = 4 \<or> len = 5 \<or> len = 6 \<or> len = 7))
       \<or> (d = 4 \<and> (len = 5 \<or> len = 6 \<or> len = 7))
       \<or> (d = 5 \<and> (len = 6 \<or> len = 7))
       \<or> (d = 6 \<and> len = 7)"
proof -
  from assms have "len = 2 \<or> len = 3 \<or> len = 4 \<or> len = 5 \<or> len = 6 \<or> len = 7"
    by linarith
  then show ?thesis using assms by (elim disjE) auto
qed

lemma set_bytes_frame:
  assumes d: "1 \<le> d" and len: "len < 8"
  shows "\<exists>s'. set_bytes cfg s out from d len = Return s' (out + int len)
      \<and> wr s' = wr s \<union> {out ..< out + int len}
      \<and> (\<forall>x. \<not> (out \<le> x \<and> x < out + int len) \<longrightarrow> mem s' x = mem s x)"
proof (cases "unaligned_ok cfg")
  case False
  from byte_loop_run[of s out "from" len] obtain s' where
    run: "byte_loop s out from len = (s', out + int len)"
    and w: "wr s' = wr s \<union> {out ..< out + int len}"
    and fr: "\<And>x. \<not> (out \<le> x \<and> x < out + int len) \<Longrightarrow> mem s' x = mem s x"
    by blast
  have "set_bytes cfg s out from d len = Return s' (out + int len)"
    using False len by (simp add: set_bytes_def run ret_def)
  then show ?thesis using w fr by blast
next
  case True
  show ?thesis
  proof (cases "len \<le> d")
    case le: True
    then have "set_bytes cfg s out from d len = copy_bytes cfg s out from len"
      using True len by (simp add: set_bytes_def)
    then show ?thesis using copy_bytes_frame[OF len, of cfg s out "from"] by simp
  next
    case False
    then have "d < len" by simp
    from pair_cases[OF d this len] show ?thesis
      using True
      by (elim disjE conjE)
        (auto simp add: set_defs copy_defs heap_simps simp del: store.simps)
  qed
qed

lemma set_bytes_run:
  assumes d: "1 \<le> d" and len: "len < 8"
  shows "\<exists>s'. set_bytes cfg s out (out - int d) d len = Return s' (out + int len)
      \<and> wr s' = wr s \<union> {out ..< out + int len}
      \<and> (\<forall>x. \<not> (out \<le> x \<and> x < out + int len) \<longrightarrow> mem s' x = mem s x)
      \<and> (\<forall>i<len. mem s' (out + int i) = mem s' (out + int i - int d))"
proof (cases "unaligned_ok cfg")
  case False
  from byte_loop_run[of s out "out - int d" len] obtain s' where
    run: "byte_loop s out (out - int d) len = (s', out + int len)"
    and w: "wr s' = wr s \<union> {out ..< out + int len}"
    and fr: "\<And>x. \<not> (out \<le> x \<and> x < out + int len) \<Longrightarrow> mem s' x = mem s x"
    and sp: "\<And>x. out - int d < out \<Longrightarrow> out \<le> x \<Longrightarrow> x < out + int len
               \<Longrightarrow> mem s' x = mem s' (x - (out - (out - int d)))"
    by blast
  have "set_bytes cfg s out (out - int d) d len = Return s' (out + int len)"
    using False len by (simp add: set_bytes_def run ret_def)
  moreover have "\<forall>i<len. mem s' (out + int i) = mem s' (out + int i - int d)"
    using d sp by simp
  ultimately show ?thesis using w fr by blast
next
  case True
  show ?thesis
  proof (cases "len \<le> d")
    case le: True
    then have a: "out - int d + int len \<le> out \<or> out \<le> out - int d" by simp
    from copy_bytes_run[OF len a, of cfg s] obtain s' where
      run: "copy_bytes cfg s out (out - int d) len = Return s' (out + int len)"
      and w: "wr s' = wr s \<union> {out ..< out + int len}"
      and fr: "\<And>x. \<not> (out \<le> x \<and> x < out + int len) \<Longrightarrow> mem s' x = mem s x"
      and cp: "\<And>i. i < len \<Longrightarrow> mem s' (out + int i) = mem s (out - int d + int i)"
      by blast
    have "set_bytes cfg s out (out - int d) d len = Return s' (out + int len)"
      using True le len by (simp add: set_bytes_def run)
    moreover have "\<forall>i<len. mem s' (out + int i) = mem s' (out + int i - int d)"
    proof (intro allI impI)
      fix i assume i: "i < len"
      have "mem s' (out + int i - int d) = mem s (out + int i - int d)"
        using i le by (simp add: fr)
      also have "\<dots> = mem s (out - int d + int i)"
        by (rule arg_cong[where f = "mem s"]) simp
      finally show "mem s' (out + int i) = mem s' (out + int i - int d)"
        using cp[OF i] by simp
    qed
    ultimately show ?thesis using w fr by blast
  next
    case False
    then have "d < len" by simp
    from pair_cases[OF d this len] show ?thesis
      using True
      by (elim disjE conjE)
        (auto simp add: set_defs copy_defs heap_simps all_less_numeral simp del: store.simps
          intro!: arg_cong[where f = "mem s"])
  qed
qed

section \<open>The doubling loop\<close>

lemma doubling_period:
  fixes dist len :: nat
  assumes d1: "1 \<le> dist" and d8: "dist < 8" and f: "from = out - int dist"
    and fr: "\<And>x. \<not> (out + int dist \<le> x \<and> x < out + int len)
               \<Longrightarrow> mem s' x = mem (via_chunk s out from 8) x"
    and sp: "\<And>x. out + int dist \<le> x \<Longrightarrow> x < out + int len
               \<Longrightarrow> mem s' x = mem s' (x - int (dist + dist))"
  shows "\<forall>x. out \<le> x \<and> x < out + int len \<longrightarrow> mem s' x = mem s' (x - int dist)"
proof -
  have low: "mem s' x = mem s' (x - int dist)" if "out \<le> x" and "x < out + int dist" for x
  proof -
    have "mem s' x = mem (via_chunk s out from 8) x"
      using that by (simp add: fr)
    also have "\<dots> = mem s (from + (x - out))"
      using that d8 by (simp add: mem_via_chunk)
    also have "\<dots> = mem s (x - int dist)"
      by (rule arg_cong[where f = "mem s"]) (simp add: f)
    also have "\<dots> = mem (via_chunk s out from 8) (x - int dist)"
      using that by (simp add: mem_via_chunk)
    also have "\<dots> = mem s' (x - int dist)"
      using that by (simp add: fr)
    finally show ?thesis .
  qed
  have main: "out + int n < out + int len \<Longrightarrow>
      mem s' (out + int n) = mem s' (out + int n - int dist)" for n
  proof (induction n rule: less_induct)
    case (less n)
    show ?case
    proof (cases "n < dist")
      case True
      then show ?thesis using low[of "out + int n"] by simp
    next
      case False
      have a: "mem s' (out + int n) = mem s' (out + int n - int (dist + dist))"
        using False less.prems by (intro sp) simp_all
      show ?thesis
      proof (cases "n < dist + dist")
        case True
        have "mem s' (out + int n - int dist) = mem s' (out + int n - int dist - int dist)"
          using True False by (intro low) simp_all
        also have "\<dots> = mem s' (out + int n - int (dist + dist))"
          by (rule arg_cong[where f = "mem s'"]) simp
        finally show ?thesis using a by simp
      next
        case ge: False
        define y where "y = out + int n - int (dist + dist)"
        have yeq: "out + int (n - (dist + dist)) = y"
          using ge by (simp add: y_def)
        have "mem s' (out + int (n - (dist + dist)))
            = mem s' (out + int (n - (dist + dist)) - int dist)"
          using ge d1 less.prems by (intro less.IH) simp_all
        then have c: "mem s' y = mem s' (y - int dist)"
          unfolding yeq .
        have a': "mem s' (out + int n) = mem s' y"
          using a unfolding y_def .
        have "mem s' (out + int n - int dist) = mem s' (out + int n - int dist - int (dist + dist))"
          using ge less.prems by (intro sp) simp_all
        also have "\<dots> = mem s' (y - int dist)"
          by (rule arg_cong[where f = "mem s'"]) (simp add: y_def)
        finally have b: "mem s' (out + int n - int dist) = mem s' (y - int dist)" .
        show ?thesis
          by (simp only: a' b c)
      qed
    qed
  qed
  show "\<forall>x. out \<le> x \<and> x < out + int len \<longrightarrow> mem s' x = mem s' (x - int dist)"
  proof (intro allI impI)
    fix x assume x: "out \<le> x \<and> x < out + int len"
    then have "out + int (nat (x - out)) < out + int len" by simp
    from main[OF this] x show "mem s' x = mem s' (x - int dist)" by simp
  qed
qed

lemma doubling_step:
  fixes dist len :: nat
  assumes d1: "1 \<le> dist" and d8: "dist < 8" and dl: "dist < len" and len: "8 \<le> len"
    and w: "wr s' = wr (via_chunk s out from 8) \<union> {out + int dist ..< out + int len}"
    and fr: "\<And>x. \<not> (out + int dist \<le> x \<and> x < out + int len)
               \<Longrightarrow> mem s' x = mem (via_chunk s out from 8) x"
    and sp: "\<And>x. from = out - int dist \<Longrightarrow> out + int dist \<le> x \<Longrightarrow> x < out + int len
               \<Longrightarrow> mem s' x = mem s' (x - int (dist + dist))"
  shows "wr s' = wr s \<union> {out ..< out + int len}
      \<and> (\<forall>x. \<not> (out \<le> x \<and> x < out + int len) \<longrightarrow> mem s' x = mem s x)
      \<and> (from = out - int dist \<longrightarrow>
           (\<forall>x. out \<le> x \<and> x < out + int len \<longrightarrow> mem s' x = mem s' (x - int dist)))"
proof -
  have w': "wr s' = wr s \<union> {out ..< out + int len}"
    using d8 len by (auto simp add: w wr_via_chunk)
  have fr': "\<forall>x. \<not> (out \<le> x \<and> x < out + int len) \<longrightarrow> mem s' x = mem s x"
    using d8 len by (auto simp add: fr mem_via_chunk)
  have sp': "from = out - int dist \<longrightarrow>
           (\<forall>x. out \<le> x \<and> x < out + int len \<longrightarrow> mem s' x = mem s' (x - int dist))"
  proof (intro impI)
    assume f: "from = out - int dist"
    show "\<forall>x. out \<le> x \<and> x < out + int len \<longrightarrow> mem s' x = mem s' (x - int dist)"
      by (rule doubling_period[OF d1 d8 f fr sp[OF f]])
  qed
  from w' fr' sp' show ?thesis by blast
qed

lemma chunk_memset_loop_run:
  assumes d1: "1 \<le> dist" and len: "8 \<le> len"
  shows "\<exists>s'. chunk_memset_loop cfg s out from dist len = Some (Return s' (out + int len))
      \<and> wr s' = wr s \<union> {out ..< out + int len}
      \<and> (\<forall>x. \<not> (out \<le> x \<and> x < out + int len) \<longrightarrow> mem s' x = mem s x)
      \<and> (from = out - int dist \<longrightarrow>
           (\<forall>x. out \<le> x \<and> x < out + int len \<longrightarrow> mem s' x = mem s' (x - int dist)))"
  using d1 len
proof (induction "8 - dist" arbitrary: s out dist len rule: less_induct)
  case less
  note d1 = \<open>1 \<le> dist\<close> and len = \<open>8 \<le> len\<close>
  show ?case
  proof (cases "dist < len \<and> dist < 8")
    case False
    with len have d8: "8 \<le> dist" by auto
    have run: "chunk_memset_loop cfg s out from dist len = Some (chunk_memcpy cfg s out from len)"
      using d8 by (subst chunk_memset_loop.simps) simp
    from chunk_memcpy_run[OF len, of cfg s out "from"] obtain s' where
      r: "chunk_memcpy cfg s out from len = Return s' (out + int len)"
      and w: "wr s' = wr s \<union> {out ..< out + int len}"
      and fr: "\<forall>x. \<not> (out \<le> x \<and> x < out + int len) \<longrightarrow> mem s' x = mem s x"
      and sp: "from + 8 \<le> out \<longrightarrow>
           (\<forall>x. out \<le> x \<and> x < out + int len \<longrightarrow> mem s' x = mem s' (x - (out - from)))"
      by blast
    have "from = out - int dist \<longrightarrow>
           (\<forall>x. out \<le> x \<and> x < out + int len \<longrightarrow> mem s' x = mem s' (x - int dist))"
      using sp d8 by auto
    with run r w fr show ?thesis by simp
  next
    case True
    define s1 where "s1 = via_chunk s out from 8"
    define out1 where "out1 = out + int dist"
    define len1 where "len1 = len - dist"
    define dist1 where "dist1 = dist + dist"
    have ends: "out1 + int len1 = out + int len"
      using True by (simp add: out1_def len1_def)
    have dist1: "1 \<le> dist1" using d1 by (simp add: dist1_def)
    have behind: "from = out - int dist \<Longrightarrow> from = out1 - int dist1"
      by (simp add: out1_def dist1_def)
    have "\<exists>s'. chunk_memset_loop cfg s out from dist len = Some (Return s' (out1 + int len1))
      \<and> wr s' = wr s1 \<union> {out1 ..< out1 + int len1}
      \<and> (\<forall>x. \<not> (out1 \<le> x \<and> x < out1 + int len1) \<longrightarrow> mem s' x = mem s1 x)
      \<and> (from = out1 - int dist1 \<longrightarrow>
           (\<forall>x. out1 \<le> x \<and> x < out1 + int len1 \<longrightarrow> mem s' x = mem s' (x - int dist1)))"
    proof (cases "len1 < 8")
      case short: True
      have run: "chunk_memset_loop cfg s out from dist len
          = Some (set_bytes cfg s1 out1 from dist1 len1)"
        using True short
        by (subst chunk_memset_loop.simps)
          (simp add: Let_def copy_8_bytes_def s1_def out1_def len1_def dist1_def)
      from set_bytes_frame[OF dist1 short, of cfg s1 out1 "from"] obtain s' where
        r: "set_bytes cfg s1 out1 from dist1 len1 = Return s' (out1 + int len1)"
        and w: "wr s' = wr s1 \<union> {out1 ..< out1 + int len1}"
        and fr: "\<forall>x. \<not> (out1 \<le> x \<and> x < out1 + int len1) \<longrightarrow> mem s' x = mem s1 x"
        by blast
      have "from = out1 - int dist1 \<longrightarrow>
           (\<forall>x. out1 \<le> x \<and> x < out1 + int len1 \<longrightarrow> mem s' x = mem s' (x - int dist1))"
      proof (intro impI allI)
        fix x
        assume f: "from = out1 - int dist1" and x: "out1 \<le> x \<and> x < out1 + int len1"
        from set_bytes_run[OF dist1 short, of cfg s1 out1] r f
        have "\<forall>i<len1. mem s' (out1 + int i) = mem s' (out1 + int i - int dist1)"
          by auto
        from index_to_addr[where P = "\<lambda>a. mem s' a = mem s' (a - int dist1)", OF this] x
        show "mem s' x = mem s' (x - int dist1)" by simp
      qed
      with run r w fr show ?thesis by simp
    next
      case long: False
      have run: "chunk_memset_loop cfg s out from dist len
          = chunk_memset_loop cfg s1 out1 from dist1 len1"
        using True long
        by (subst chunk_memset_loop.simps)
          (simp add: Let_def copy_8_bytes_def s1_def out1_def len1_def dist1_def)
      have "8 - dist1 < 8 - dist" using True d1 unfolding dist1_def by linarith
      from less.hyps[OF this dist1, of len1 s1 out1] long run
      show ?thesis by simp
    qed
    then obtain s' where
      r: "chunk_memset_loop cfg s out from dist len = Some (Return s' (out + int len))"
      and w: "wr s' = wr s1 \<union> {out + int dist ..< out + int len}"
      and fr: "\<And>x. \<not> (out + int dist \<le> x \<and> x < out + int len) \<Longrightarrow> mem s' x = mem s1 x"
      and sp: "\<And>x. from = out - int dist \<Longrightarrow> out + int dist \<le> x \<Longrightarrow> x < out + int len
               \<Longrightarrow> mem s' x = mem s' (x - int (dist + dist))"
      unfolding ends using behind unfolding out1_def dist1_def by blast
    from doubling_step[of dist len s' s out "from", OF d1 _ _ len w[unfolded s1_def]
        fr[unfolded s1_def] sp] True r
    show ?thesis by simp
  qed
qed

lemma pattern_from_period:
  fixes d len :: nat
  assumes d: "1 \<le> d"
    and fr: "\<And>x. x < out \<Longrightarrow> mem s' x = mem s x"
    and sp: "\<And>x. out \<le> x \<Longrightarrow> x < out + int len \<Longrightarrow> mem s' x = mem s' (x - int d)"
  shows "i < len \<Longrightarrow> mem s' (out + int i) = mem s (out - int d + int (i mod d))"
proof (induction i rule: less_induct)
  case (less i)
  have step: "mem s' (out + int i) = mem s' (out + int i - int d)"
    using less.prems by (intro sp) simp_all
  show ?case
  proof (cases "i < d")
    case True
    have "mem s' (out + int i - int d) = mem s (out + int i - int d)"
      using True by (intro fr) simp
    also have "\<dots> = mem s (out - int d + int (i mod d))"
      using True by (intro arg_cong[where f = "mem s"]) simp
    finally show ?thesis using step by simp
  next
    case False
    then have i: "i - d < i" "i - d < len" using d less.prems by simp_all
    have e: "out + int (i - d) = out + int i - int d"
      using False by simp
    have "(i - d) mod d = i mod d"
      using False by (simp add: le_mod_geq)
    with less.IH[OF i] show ?thesis
      unfolding e using step by simp
  qed
qed

lemmas chunk_memset_loop_induct =
  chunk_memset_loop.raw_induct[rotated, consumes 1, case_names step]

lemmas chunk_memset_loop_behind_induct =
  chunk_memset_loop_behind.raw_induct[rotated, consumes 1, case_names step]

lemma loop_to_behind:
  assumes "chunk_memset_loop cfg s out from dist len = Some r"
  shows "from = out - int dist \<longrightarrow> chunk_memset_loop_behind cfg s out dist len = Some r"
  using assms
proof (induction cfg s out "from" dist len r rule: chunk_memset_loop_induct)
  case (step loop c h p f d l y)
  show ?case
  proof (intro impI)
    assume f: "f = p - int d"
    have e: "p + int d - int (d + d) = p - int d" by simp
    show "chunk_memset_loop_behind c h p d l = Some y"
    proof (cases "d < l \<and> d < 8")
      case False
      with step(2) f show ?thesis
        by (subst chunk_memset_loop_behind.simps) auto
    next
      case True
      show ?thesis
      proof (cases "l - d < 8")
        case short: True
        with True step(2) f show ?thesis
          by (subst chunk_memset_loop_behind.simps) (simp add: Let_def e)
      next
        case long: False
        with True step(2) have
          "loop c (fst (copy_8_bytes h p f)) (p + int d) f (d + d) (l - d) = Some y"
          by (simp add: Let_def)
        from step(1)[OF this] f e
        have "chunk_memset_loop_behind c (fst (copy_8_bytes h p f)) (p + int d)
            (d + d) (l - d) = Some y"
          by simp
        with True long f show ?thesis
          by (subst chunk_memset_loop_behind.simps) (simp add: Let_def)
      qed
    qed
  qed
qed

lemma behind_to_loop:
  assumes "chunk_memset_loop_behind cfg s out dist len = Some r"
  shows "chunk_memset_loop cfg s out (out - int dist) dist len = Some r"
  using assms
proof (induction cfg s out dist len r rule: chunk_memset_loop_behind_induct)
  case (step loop c h p d l y)
  have e: "p + int d - int (d + d) = p - int d" by simp
  show ?case
  proof (cases "d < l \<and> d < 8")
    case False
    with step(2) show ?thesis
      by (subst chunk_memset_loop.simps) auto
  next
    case True
    show ?thesis
    proof (cases "l - d < 8")
      case short: True
      with True step(2) show ?thesis
        by (subst chunk_memset_loop.simps) (simp add: Let_def e)
    next
      case long: False
      with True step(2) have
        "loop c (fst (copy_8_bytes h p (p - int d))) (p + int d) (d + d) (l - d) = Some y"
        by (simp add: Let_def)
      from step(1)[OF this] e
      have "chunk_memset_loop c (fst (copy_8_bytes h p (p - int d))) (p + int d) (p - int d)
          (d + d) (l - d) = Some y"
        by simp
      with True long show ?thesis
        by (subst chunk_memset_loop.simps) (simp add: Let_def)
    qed
  qed
qed

lemma chunk_memset_run:
  assumes d1: "1 \<le> dist" and dl: "dist < len" and len: "8 \<le> len"
  shows "\<exists>s'. chunk_memset cfg s out from dist len = Some (Return s' (out + int len))
      \<and> wr s' = wr s \<union> {out ..< out + int len}
      \<and> (\<forall>x. \<not> (out \<le> x \<and> x < out + int len) \<longrightarrow> mem s' x = mem s x)
      \<and> (from = out - int dist \<longrightarrow>
           (\<forall>x. out \<le> x \<and> x < out + int len \<longrightarrow> mem s' x = mem s' (x - int dist)))"
proof -
  have "chunk_memset cfg s out from dist len = chunk_memset_loop cfg s out from dist len"
    using dl len by (simp add: chunk_memset_def)
  with chunk_memset_loop_run[OF d1 len, of cfg s out "from"] show ?thesis by simp
qed

lemma chunk_memset_pattern:
  assumes d1: "1 \<le> dist" and dl: "dist < len" and len: "8 \<le> len"
  shows "\<exists>s'. chunk_memset cfg s out (out - int dist) dist len = Some (Return s' (out + int len))
      \<and> wr s' = wr s \<union> {out ..< out + int len}
      \<and> (\<forall>x. \<not> (out \<le> x \<and> x < out + int len) \<longrightarrow> mem s' x = mem s x)
      \<and> (\<forall>i<len. mem s' (out + int i) = mem s (out - int dist + int (i mod dist)))"
proof -
  from chunk_memset_run[OF d1 dl len, of cfg s out "out - int dist"] obtain s' where
    r: "chunk_memset cfg s out (out - int dist) dist len = Some (Return s' (out + int len))"
    and w: "wr s' = wr s \<union> {out ..< out + int len}"
    and fr: "\<And>x. \<not> (out \<le> x \<and> x < out + int len) \<Longrightarrow> mem s' x = mem s x"
    and sp: "\<And>x. out \<le> x \<Longrightarrow> x < out + int len \<Longrightarrow> mem s' x = mem s' (x - int dist)"
    by blast
  have below: "\<And>x. x < out \<Longrightarrow> mem s' x = mem s x"
    by (simp add: fr)
  have "\<forall>i<len. mem s' (out + int i) = mem s (out - int dist + int (i mod dist))"
  proof (intro allI impI)
    fix i assume i: "i < len"
    show "mem s' (out + int i) = mem s (out - int dist + int (i mod dist))"
      by (rule pattern_from_period[OF d1 below sp i])
  qed
  with r w fr show ?thesis by blast
qed


section \<open>Copies of regions that do not interfere\<close>

lemma byte_loop_bytewise: "byte_loop s out from n = (bytewise_copy s out from n, out + int n)"
proof (induction n)
  case 0
  then show ?case by (simp add: bytewise_copy_def)
next
  case (Suc n)
  have "bytewise_copy s out from (Suc n)
      = store (bytewise_copy s out from n) (out + int n)
          [mem (bytewise_copy s out from n) (from + int n)]"
    by (simp add: bytewise_copy_def)
  then show ?case
    by (simp only: byte_loop_snoc Suc.IH prod.case) (simp add: add.assoc)
qed

lemma mem_plain_copy:
  "mem (plain_copy s out from n) x =
     (if out \<le> x \<and> x < out + int n then mem s (from + (x - out)) else mem s x)"
  using mem_via_chunk[of s out "from" n x] by (simp add: plain_copy_def via_chunk_def)

lemma wr_plain_copy: "wr (plain_copy s out from n) = wr s \<union> {out ..< out + int n}"
  using wr_via_chunk[of s out "from" n] by (simp add: plain_copy_def via_chunk_def)

lemma plain_copy_char:
  assumes w: "wr s' = wr s \<union> {out ..< out + int len}"
    and fr: "\<forall>x. \<not> (out \<le> x \<and> x < out + int len) \<longrightarrow> mem s' x = mem s x"
    and cp: "\<forall>i<len. mem s' (out + int i) = mem s (from + int i)"
  shows "mem s' = mem (plain_copy s out from len) \<and> wr s' = wr (plain_copy s out from len)"
proof -
  have "mem s' x = mem (plain_copy s out from len) x" for x
  proof (cases "out \<le> x \<and> x < out + int len")
    case True
    then have "nat (x - out) < len" by auto
    with cp have "mem s' (out + int (nat (x - out))) = mem s (from + int (nat (x - out)))"
      by blast
    with True show ?thesis by (simp add: mem_plain_copy)
  next
    case False
    with fr show ?thesis by (auto simp add: mem_plain_copy)
  qed
  then have "mem s' = mem (plain_copy s out from len)" by (rule ext)
  with w show ?thesis by (simp add: wr_plain_copy)
qed

lemma chunk_memcpy_apart:
  assumes len: "8 \<le> len" and apart: "from + int len \<le> out \<or> out + int len \<le> from"
  shows "\<exists>s'. chunk_memcpy cfg s out from len = Return s' (out + int len)
      \<and> wr s' = wr s \<union> {out ..< out + int len}
      \<and> (\<forall>x. \<not> (out \<le> x \<and> x < out + int len) \<longrightarrow> mem s' x = mem s x)
      \<and> (\<forall>i<len. mem s' (out + int i) = mem s (from + int i))"
proof -
  from chunk_memcpy_run[OF len, of cfg s out "from"] obtain s' where
    r: "chunk_memcpy cfg s out from len = Return s' (out + int len)"
    and w: "wr s' = wr s \<union> {out ..< out + int len}"
    and fr: "\<And>x. \<not> (out \<le> x \<and> x < out + int len) \<Longrightarrow> mem s' x = mem s x"
    and sp: "\<And>x. from + 8 \<le> out \<Longrightarrow> out \<le> x \<Longrightarrow> x < out + int len
               \<Longrightarrow> mem s' x = mem s' (x - (out - from))"
    and mv: "\<And>x. out + 8 \<le> from \<Longrightarrow> out \<le> x \<Longrightarrow> x < out + int len
               \<Longrightarrow> mem s' x = mem s (x + (from - out))"
    by blast
  have "\<forall>i<len. mem s' (out + int i) = mem s (from + int i)"
  proof (intro allI impI)
    fix i assume i: "i < len"
    from apart show "mem s' (out + int i) = mem s (from + int i)"
    proof
      assume a: "from + int len \<le> out"
      have "mem s' (out + int i) = mem s' (out + int i - (out - from))"
        using a len i by (intro sp) simp_all
      also have "\<dots> = mem s' (from + int i)"
        by (rule arg_cong[where f = "mem s'"]) simp
      also have "\<dots> = mem s (from + int i)"
        using a i by (intro fr) simp
      finally show ?thesis .
    next
      assume a: "out + int len \<le> from"
      have "mem s' (out + int i) = mem s (out + int i + (from - out))"
        using a len i by (intro mv) simp_all
      also have "\<dots> = mem s (from + int i)"
        by (rule arg_cong[where f = "mem s"]) simp
      finally show ?thesis .
    qed
  qed
  with r w fr show ?thesis by blast
qed

lemma set_bytes_delegates:
  "len \<le> dist \<Longrightarrow> set_bytes cfg s out from dist len = copy_bytes cfg s out from len"
  by (simp add: set_bytes_def copy_bytes_def)

section \<open>Short patterns\<close>

lemma set_bytes_pattern:
  assumes d1: "1 \<le> dist" and l8: "len < 8"
  shows "\<exists>s'. set_bytes cfg s out (out - int dist) dist len = Return s' (out + int len)
      \<and> wr s' = wr s \<union> {out ..< out + int len}
      \<and> (\<forall>i<len. mem s' (out + int i) = mem s (out - int dist + int (i mod dist)))"
proof -
  from set_bytes_run[OF d1 l8, of cfg s out] obtain s' where
    r: "set_bytes cfg s out (out - int dist) dist len = Return s' (out + int len)"
    and w: "wr s' = wr s \<union> {out ..< out + int len}"
    and fr: "\<And>x. \<not> (out \<le> x \<and> x < out + int len) \<Longrightarrow> mem s' x = mem s x"
    and sp: "\<forall>i<len. mem s' (out + int i) = mem s' (out + int i - int dist)"
    by blast
  have below: "\<And>x. x < out \<Longrightarrow> mem s' x = mem s x"
    by (simp add: fr)
  have period: "\<And>x. out \<le> x \<Longrightarrow> x < out + int len \<Longrightarrow> mem s' x = mem s' (x - int dist)"
    by (rule index_to_addr[where P = "\<lambda>a. mem s' a = mem s' (a - int dist)", OF sp])
  have "\<forall>i<len. mem s' (out + int i) = mem s (out - int dist + int (i mod dist))"
  proof (intro allI impI)
    fix i assume i: "i < len"
    show "mem s' (out + int i) = mem s (out - int dist + int (i mod dist))"
      by (rule pattern_from_period[OF d1 below period i])
  qed
  with r w show ?thesis by blast
qed

lemma chunk_memset_short:
  assumes nd: "ndebug cfg" and d1: "1 \<le> dist" and dl: "dist \<le> len" and l8: "len < 8"
  shows "\<exists>s'. chunk_memset cfg s out (out - int dist) dist len = Some (Return s' (out + int len))
      \<and> wr s' = wr s \<union> {out ..< out + 8}
      \<and> (\<forall>i<len. mem s' (out + int i) = mem s (out - int dist + int (i mod dist)))"
proof (cases "dist = len")
  case True
  have "chunk_memset cfg s out (out - int dist) dist len
      = Some (Return (via_chunk s out (out - int dist) 8) (out + int len))"
    using True nd l8
    by (simp add: chunk_memset_def chunk_memcpy_def Let_def switch_by8_def while_len.simps
        copy_8_bytes_def)
  moreover have "\<forall>i<len. mem (via_chunk s out (out - int dist) 8) (out + int i)
      = mem s (out - int dist + int (i mod dist))"
    using True l8 by (simp add: mem_via_chunk)
  ultimately show ?thesis by (simp add: wr_via_chunk)
next
  case False
  with dl have dl': "dist < len" by simp
  define s1 where "s1 = via_chunk s out (out - int dist) 8"
  have d2: "1 \<le> dist + dist" using d1 by simp
  have d8: "dist < 8" using dl' l8 by simp
  have l1: "len - dist < 8" using l8 by simp
  have e: "out + int dist - int (dist + dist) = out - int dist" by simp
  have ends: "out + int dist + int (len - dist) = out + int len"
    using dl' by simp
  have "chunk_memset cfg s out (out - int dist) dist len
      = chunk_memset_loop cfg s out (out - int dist) dist len"
    using dl' nd by (simp add: chunk_memset_def)
  also have "\<dots>
      = Some (set_bytes cfg s1 (out + int dist) (out - int dist) (dist + dist) (len - dist))"
    using dl' d8 l1 by (subst chunk_memset_loop.simps) (simp add: Let_def copy_8_bytes_def s1_def)
  finally have run: "chunk_memset cfg s out (out - int dist) dist len
      = Some (set_bytes cfg s1 (out + int dist) (out - int dist) (dist + dist) (len - dist))" .
  from set_bytes_run[OF d2 l1, of cfg s1 "out + int dist", unfolded e ends] obtain s' where
    r: "set_bytes cfg s1 (out + int dist) (out - int dist) (dist + dist) (len - dist)
          = Return s' (out + int len)"
    and w: "wr s' = wr s1 \<union> {out + int dist ..< out + int len}"
    and fr: "\<And>x. \<not> (out + int dist \<le> x \<and> x < out + int len) \<Longrightarrow> mem s' x = mem s1 x"
    and sp2: "\<forall>i<len - dist. mem s' (out + int dist + int i)
                 = mem s' (out + int dist + int i - int (dist + dist))"
    by blast
  have sp2': "\<And>x. out + int dist \<le> x \<Longrightarrow> x < out + int len
      \<Longrightarrow> mem s' x = mem s' (x - int (dist + dist))"
    using index_to_addr[where P = "\<lambda>a. mem s' a = mem s' (a - int (dist + dist))", OF sp2]
    unfolding ends by blast
  from doubling_period[OF d1 d8 refl fr[unfolded s1_def] sp2']
  have period: "\<And>x. out \<le> x \<Longrightarrow> x < out + int len \<Longrightarrow> mem s' x = mem s' (x - int dist)"
    by blast
  have below: "\<And>x. x < out \<Longrightarrow> mem s' x = mem s x"
    by (simp add: fr s1_def mem_via_chunk)
  have "\<forall>i<len. mem s' (out + int i) = mem s (out - int dist + int (i mod dist))"
  proof (intro allI impI)
    fix i assume i: "i < len"
    show "mem s' (out + int i) = mem s (out - int dist + int (i mod dist))"
      by (rule pattern_from_period[OF d1 below period i])
  qed
  moreover have "wr s' = wr s \<union> {out ..< out + 8}"
    using l8 by (auto simp add: w s1_def wr_via_chunk)
  ultimately show ?thesis using run r by simp
qed

lemma chunk_memset_short_debug:
  assumes nd: "\<not> ndebug cfg" and l8: "len < 8"
  shows "chunk_memset cfg s out from dist len = Some (AssertFail s)"
  using assms by (simp add: chunk_memset_def chunk_memcpy_def Let_def)

lemma copy_bytes_plain:
  assumes len: "len < 8" and apart: "from + int len \<le> out \<or> out \<le> from"
  shows "\<exists>s'. copy_bytes cfg s out from len = Return s' (out + int len)
      \<and> mem s' = mem (plain_copy s out from len) \<and> wr s' = wr (plain_copy s out from len)"
proof -
  from copy_bytes_run[OF len apart, of cfg s] obtain s' where
    r: "copy_bytes cfg s out from len = Return s' (out + int len)"
    and w: "wr s' = wr s \<union> {out ..< out + int len}"
    and fr: "\<forall>x. \<not> (out \<le> x \<and> x < out + int len) \<longrightarrow> mem s' x = mem s x"
    and cp: "\<forall>i<len. mem s' (out + int i) = mem s (from + int i)"
    by blast
  from plain_copy_char[OF w fr cp] r show ?thesis by blast
qed

lemma chunk_memcpy_pattern:
  assumes d8: "8 \<le> dist" and len: "8 \<le> len"
  shows "\<exists>s'. chunk_memcpy cfg s out (out - int dist) len = Return s' (out + int len)
      \<and> (\<forall>i<len. mem s' (out + int i) = mem s (out - int dist + int (i mod dist)))"
proof -
  have d1: "1 \<le> dist" using d8 by simp
  from chunk_memcpy_run[OF len, of cfg s out "out - int dist"] obtain s' where
    r: "chunk_memcpy cfg s out (out - int dist) len = Return s' (out + int len)"
    and fr: "\<And>x. \<not> (out \<le> x \<and> x < out + int len) \<Longrightarrow> mem s' x = mem s x"
    and sp: "\<And>x. out - int dist + 8 \<le> out \<Longrightarrow> out \<le> x \<Longrightarrow> x < out + int len
               \<Longrightarrow> mem s' x = mem s' (x - (out - (out - int dist)))"
    by blast
  have below: "\<And>x. x < out \<Longrightarrow> mem s' x = mem s x"
    by (simp add: fr)
  have period: "\<And>x. out \<le> x \<Longrightarrow> x < out + int len \<Longrightarrow> mem s' x = mem s' (x - int dist)"
    using sp d8 by simp
  have "\<forall>i<len. mem s' (out + int i) = mem s (out - int dist + int (i mod dist))"
  proof (intro allI impI)
    fix i assume i: "i < len"
    show "mem s' (out + int i) = mem s (out - int dist + int (i mod dist))"
      by (rule pattern_from_period[OF d1 below period i])
  qed
  with r show ?thesis by blast
qed

lemma load_nth: "i < n \<Longrightarrow> load s a n ! i = mem s (a + int i)"
  by (simp add: load_def)

lemma behind_or_ahead:
  fixes dist i :: nat
  shows "mem s (out - int dist + int i)
       = (if i < dist then mem s (out - int (dist - i)) else mem s (out + int (i - dist)))"
proof (cases "i < dist")
  case True
  have "mem s (out - int dist + int i) = mem s (out - int (dist - i))"
    using True by (intro arg_cong[where f = "mem s"]) simp
  with True show ?thesis by simp
next
  case False
  have "mem s (out - int dist + int i) = mem s (out + int (i - dist))"
    using False by (intro arg_cong[where f = "mem s"]) simp
  with False show ?thesis by simp
qed

section \<open>Footprints\<close>

lemma within_wider: "within s lo hi s' \<Longrightarrow> hi \<le> hi' \<Longrightarrow> within s lo hi' s'"
  by auto

lemma copy_bytes_within:
  "len < 8 \<Longrightarrow> within s out (out + int len) (final (copy_bytes cfg s out from len))"
  using copy_bytes_frame[of len cfg s out "from"] by auto

lemma set_bytes_within:
  assumes len: "len < 8"
  shows "within s out (out + int len) (final (set_bytes cfg s out from dist len))"
proof (cases "1 \<le> dist")
  case True
  from set_bytes_frame[OF True len, of cfg s out "from"] show ?thesis by auto
next
  case False
  then have d0: "dist = 0" by simp
  show ?thesis
  proof (cases "unaligned_ok cfg")
    case u: True
    show ?thesis
    proof (cases "len = 0")
      case True
      with u d0 show ?thesis by (simp add: set_bytes_def copy_bytes_def)
    next
      case False
      with u d0 len show ?thesis by (simp add: set_bytes_def)
    qed
  next
    case False
    from byte_loop_run[of s out "from" len] False len show ?thesis
      by (auto simp add: set_bytes_def ret_def)
  qed
qed

lemma chunk_memcpy_within:
  "8 \<le> len \<Longrightarrow> within s out (out + int len) (final (chunk_memcpy cfg s out from len))"
  using chunk_memcpy_run[of len cfg s out "from"] by auto

lemma chunk_memcpy_16_within:
  "16 \<le> len \<Longrightarrow> within s out (out + int len) (final (chunk_memcpy_16 cfg s out from len))"
  using chunk_memcpy_16_run[of len cfg s out "from"] by auto

lemma byte_memset_within:
  assumes len: "8 \<le> len"
  shows "within s out (out + int len) (final (byte_memset cfg s out len))"
proof (cases "ndebug cfg")
  case True
  from byte_memset_release[OF True len, of s out] show ?thesis by auto
next
  case False
  define c where "c = mem s (out - 1)"
  define r where "r = int (len mod 8)"
  define k where "k = len div 8 mod 8"
  define s' where "s' = MEMSET (MEMSET s out c 8) (out + r) c (8 * k)"
  have r0: "0 \<le> r" and r8: "r < 8" by (simp_all add: r_def)
  have "len mod 8 + 8 * (len div 8) = len" by simp
  moreover have "k \<le> len div 8" by (simp add: k_def)
  ultimately have "len mod 8 + 8 * k \<le> len" by linarith
  then have top: "r + int (8 * k) \<le> int len"
    unfolding r_def by (simp only: of_nat_add[symmetric] of_nat_le_iff)
  have "switch_by8 (fill8 c) k (MEMSET s out c 8, out + r) = (s', out + r + int (8 * k))"
    by (simp add: switch_by8_pow fill8_pow k_def s'_def)
  then have run: "byte_memset cfg s out len = AssertFail s'"
    using False len by (simp add: byte_memset_def Let_def c_def r_def k_def)
  have "wr s' \<subseteq> wr s \<union> {out ..< out + int len}"
    using r0 r8 top len by (auto simp add: s'_def wr_MEMSET)
  moreover have "\<forall>x. \<not> (out \<le> x \<and> x < out + int len) \<longrightarrow> mem s' x = mem s x"
    using r0 r8 top len by (auto simp add: s'_def mem_MEMSET)
  ultimately show ?thesis using run by simp
qed

lemma chunk_memset_within:
  assumes d1: "1 \<le> dist" and len: "8 \<le> len"
  shows "\<exists>r. chunk_memset cfg s out from dist len = Some r \<and> within s out (out + int len) (final r)"
proof (cases "dist < len")
  case True
  from chunk_memset_run[OF d1 True len, of cfg s out "from"] show ?thesis by auto
next
  case False
  then have "chunk_memset cfg s out from dist len = Some (chunk_memcpy cfg s out from len)"
    by (simp add: chunk_memset_def)
  with chunk_memcpy_within[OF len, of cfg s out "from"] show ?thesis by simp
qed

lemma chunk_copy_within:
  "\<exists>r. chunk_copy cfg s out from dist len = Some r \<and> within s out (out + int len) (final r)"
proof (cases "len < 8")
  case True
  show ?thesis
  proof (cases "dist > 0")
    case d: True
    with True set_bytes_within[OF True, of cfg s out "from" dist] show ?thesis
      by (simp add: chunk_copy_def)
  next
    case False
    with True copy_bytes_within[OF True, of cfg s out "from"] show ?thesis
      by (simp add: chunk_copy_def)
  qed
next
  case False
  then have len: "8 \<le> len" by simp
  consider "dist = 1" | "1 < dist" | "dist = 0" by linarith
  then show ?thesis
  proof cases
    case 1
    with len byte_memset_within[OF len, of cfg s out] show ?thesis
      by (simp add: chunk_copy_def)
  next
    case 2
    then have d1: "1 \<le> dist" by simp
    have "chunk_copy cfg s out from dist len = chunk_memset cfg s out from dist len"
      using 2 len by (simp add: chunk_copy_def)
    with chunk_memset_within[OF d1 len, of cfg s out "from"] show ?thesis by simp
  next
    case 3
    with len chunk_memcpy_within[OF len, of cfg s out "from"] show ?thesis
      by (simp add: chunk_copy_def)
  qed
qed

lemma fast_copy_within:
  "within s out (out + int len) (final (fast_copy cfg s out from len))"
proof (cases "len < 8")
  case True
  with copy_bytes_within[OF True, of cfg s out "from"] show ?thesis
    by (simp add: fast_copy_def)
next
  case False
  then have len: "8 \<le> len" by simp
  show ?thesis
  proof (cases "sse2 cfg \<and> 16 \<le> len")
    case True
    then have "fast_copy cfg s out from len = chunk_memcpy_16 cfg s out from len"
      by (simp add: fast_copy_def)
    with True chunk_memcpy_16_within[of len cfg s out "from"] show ?thesis by simp
  next
    case False
    with len have "fast_copy cfg s out from len = chunk_memcpy cfg s out from len"
      by (auto simp add: fast_copy_def)
    with chunk_memcpy_within[OF len, of cfg s out "from"] show ?thesis by simp
  qed
qed

lemma safe_copy_within:
  "within s out (out + int len) (final (safe_copy cfg s out from len))"
proof (cases "\<bar>from - out\<bar> < int (chunk_width cfg)")
  case True
  from byte_loop_run[of s out "from" len] True show ?thesis
    by (auto simp add: safe_copy_def Let_def ret_def)
next
  case False
  with fast_copy_within[of cfg s out "from" len] show ?thesis
    by (simp add: safe_copy_def Let_def)
qed

section \<open>Claims about the run fill\<close>

text \<open>
  C1. The claim: for every \<open>len \<ge> 8\<close> no assertion inside \<^verbatim>\<open>byte_memset\<close> fails, the
  \<^verbatim>\<open>assert(0)\<close> of the switch on \<^verbatim>\<open>by8\<close> being unreachable. The code does the opposite:
  in a build with assertions, every call with \<open>len \<ge> 8\<close> passes \<^verbatim>\<open>assert(len >= sz)\<close>,
  performs the first \<^verbatim>\<open>MEMSET\<close> and then stops in \<^verbatim>\<open>assert(0)\<close>, which every path
  through the switch reaches. (\<^verbatim>\<open>chunk_memcpy\<close>, the twin of this routine, has
  \<^verbatim>\<open>default: break;\<close> at the same place.)
\<close>

theorem byte_memset_assert_fires:
  "\<not> ndebug cfg \<Longrightarrow> 8 \<le> len \<Longrightarrow>
     \<exists>s'. byte_memset cfg s out len = AssertFail s' \<and> {out ..< out + 8} \<subseteq> wr s'"
proof -
  assume nd: "\<not> ndebug cfg" and len: "8 \<le> len"
  define c where "c = mem s (out - 1)"
  define t where
    "t = switch_by8 (fill8 c) (len div 8 mod 8) (MEMSET s out c 8, out + int (len mod 8))"
  have run: "byte_memset cfg s out len = AssertFail (fst t)"
    using nd len by (simp add: byte_memset_def Let_def t_def c_def)
  have "t = (fill8 c ^^ (len div 8 mod 8)) (MEMSET s out c 8, out + int (len mod 8))"
    by (simp add: t_def switch_by8_pow)
  then have "wr (fst t) = wr (MEMSET s out c 8) \<union>
      {out + int (len mod 8) ..< out + int (len mod 8) + int (8 * (len div 8 mod 8))}"
    by (simp add: fill8_pow wr_MEMSET)
  then have "{out ..< out + 8} \<subseteq> wr (fst t)"
    by (auto simp add: wr_MEMSET)
  with run show ?thesis by blast
qed

theorem byte_memset_assert_fires_witness:
  "\<not> ndebug debug_build \<and> (8::nat) \<le> 8 \<and>
     (\<exists>s'. byte_memset debug_build heap_7A 100 8 = AssertFail s' \<and> {100 ..< 100 + 8} \<subseteq> wr s')"
  using byte_memset_assert_fires[of debug_build 8 heap_7A 100]
  by (simp add: debug_build_def)

text \<open>
  C2. The claim: for every \<open>len \<ge> 8\<close>, \<^verbatim>\<open>byte_memset(out, len)\<close> writes the byte at
  \<^verbatim>\<open>out[-1]\<close> to \<^verbatim>\<open>out[0..len-1]\<close> and returns \<^verbatim>\<open>out + len\<close>; with \<^verbatim>\<open>out[-1] = 0x7A\<close> and
  \<open>len = 20\<close> it produces 20 bytes of \<open>0x7A\<close>. In a build with assertions the call of
  the example does not return: it stops in the \<^verbatim>\<open>assert(0)\<close> of C1. With assertions
  compiled out the routine does what the claim says (\<open>byte_memset_release\<close> above, and
  \<open>byte_memset_release_20\<close> below for the example).
\<close>

theorem byte_memset_example_aborts:
  "mem heap_7A (100 - 1) = 0x7A \<and> aborted (byte_memset debug_build heap_7A 100 20)"
  by (simp add: byte_memset_def Let_def debug_build_def heap_7A_def)

lemma byte_memset_release_20:
  "\<exists>s'. byte_memset release_build heap_7A 100 20 = Return s' 120
     \<and> map (mem s') [100, 101, 102, 103, 104, 105, 106, 107, 108, 109,
                       110, 111, 112, 113, 114, 115, 116, 117, 118, 119] = replicate 20 0x7A"
proof -
  have nd: "ndebug release_build" by (simp add: release_build_def)
  from byte_memset_release[OF nd, of 20 heap_7A 100] obtain s' where
    run: "byte_memset release_build heap_7A 100 20 = Return s' 120"
    and m: "\<And>x. mem s' x = (if 100 \<le> x \<and> x < 120 then mem heap_7A 99 else mem heap_7A x)"
    by auto
  have "map (mem s') [100, 101, 102, 103, 104, 105, 106, 107, 108, 109,
                       110, 111, 112, 113, 114, 115, 116, 117, 118, 119] = replicate 20 0x7A"
    by (simp add: m heap_7A_def numeral_eq_Suc)
  with run show ?thesis by blast
qed

section \<open>Claims about pattern replication\<close>

text \<open>
  C5. For every \<open>dist\<close> and \<open>len\<close> with \<open>1 < dist < len\<close> and \<open>len \<ge> 8\<close>,
  \<^verbatim>\<open>chunk_memset\<close> terminates, whatever \<^verbatim>\<open>from\<close> is, and returns \<^verbatim>\<open>out + len\<close>; called with
  \<^verbatim>\<open>from = out - dist\<close> its output is the \<open>dist\<close> bytes before \<^verbatim>\<open>out\<close> repeated cyclically.
  This holds in every build. The witness runs the three boundary cases of the claim:
  \<open>dist = len - 1\<close>, \<open>dist = 2\<close> and \<open>dist = 8\<close>, the chunk width.
\<close>

theorem chunk_memset_terminates:
  assumes "1 < dist" and "dist < len" and "8 \<le> len"
  shows "(\<exists>s'. chunk_memset cfg s out from dist len = Some (Return s' (out + int len)))
       \<and> (\<exists>s'. chunk_memset cfg s out (out - int dist) dist len = Some (Return s' (out + int len))
              \<and> (\<forall>i<len. mem s' (out + int i) = mem s (out - int dist + int (i mod dist))))"
proof -
  from assms have d1: "1 \<le> dist" by simp
  from chunk_memset_run[OF d1 assms(2,3), of cfg s out "from"]
    chunk_memset_pattern[OF d1 assms(2,3), of cfg s out]
  show ?thesis by blast
qed

theorem chunk_memset_terminates_witness:
  "(\<exists>s'. chunk_memset debug_build heap_ramp 100 93 7 8 = Some (Return s' 108)
       \<and> map (mem s') [100, 101, 102, 103, 104, 105, 106, 107]
           = [93, 94, 95, 96, 97, 98, 99, 93])
   \<and> (\<exists>s'. chunk_memset plain_build heap_ramp 100 98 2 9 = Some (Return s' 109)
       \<and> map (mem s') [100, 101, 102, 103, 104, 105, 106, 107, 108]
           = [98, 99, 98, 99, 98, 99, 98, 99, 98])
   \<and> (\<exists>s'. chunk_memset debug_build heap_ramp 100 92 8 20 = Some (Return s' 120)
       \<and> map (mem s') [100, 101, 102, 103, 104, 105, 106, 107, 108, 109,
                         110, 111, 112, 113, 114, 115, 116, 117, 118, 119]
           = [92, 93, 94, 95, 96, 97, 98, 99, 92, 93, 94, 95, 96, 97, 98, 99, 92, 93, 94, 95])"
  using chunk_memset_terminates[of 7 8 debug_build heap_ramp 100 93]
    chunk_memset_terminates[of 2 9 plain_build heap_ramp 100 98]
    chunk_memset_terminates[of 8 20 debug_build heap_ramp 100 92]
  by (simp add: all_less_numeral heap_ramp_def)

text \<open>
  C4. The claim: for \<open>dist\<close> in \<open>[1,7]\<close> and \<open>len\<close> in \<open>[dist, 8)\<close>, with
  \<^verbatim>\<open>from = out - dist\<close>, the output of \<^verbatim>\<open>set_bytes\<close> and of \<^verbatim>\<open>chunk_memset\<close> is the
  pattern repeated cyclically and the routine returns \<^verbatim>\<open>out + len\<close>; for \<open>dist \<ge> len\<close>,
  \<^verbatim>\<open>set_bytes\<close> is a plain copy through \<^verbatim>\<open>copy_bytes\<close>. For \<^verbatim>\<open>chunk_memset\<close> this fails in a
  build with assertions: the routine guards its domain with \<^verbatim>\<open>assert(len >= 8)\<close> (and
  \<^verbatim>\<open>chunk_memcpy\<close>, to which it hands \<open>dist = len\<close>, with \<^verbatim>\<open>assert(len >= sz)\<close>), so a call
  with \<open>len < 8\<close> stops there, before any write.
\<close>

theorem chunk_memset_short_counterexample:
  "chunk_memset debug_build heap_ramp 100 (100 - 2) 2 4 = Some (AssertFail heap_ramp)"
  by (simp add: chunk_memset_def debug_build_def)

text \<open>
  C4 as amended. For \<open>dist\<close> in \<open>[1,7]\<close> and \<open>len\<close> in \<open>[dist, 8)\<close>, with
  \<^verbatim>\<open>from = out - dist\<close>: \<^verbatim>\<open>set_bytes\<close> returns \<^verbatim>\<open>out + len\<close> with
  \<open>output[i] = pattern[i mod dist]\<close> for \<open>i < len\<close>, in every build; \<^verbatim>\<open>chunk_memset\<close> does
  the same when assertions are compiled out, and stops in its assertion, the store
  untouched, when they are not. For \<open>d \<ge> len\<close>, \<^verbatim>\<open>set_bytes\<close> gives the result of
  \<^verbatim>\<open>copy_bytes\<close>, which is the plain copy of the \<open>len\<close> bytes at \<^verbatim>\<open>out - d\<close>.
\<close>

theorem set_bytes_replicates:
  assumes "1 \<le> dist" and "dist \<le> 7" and "dist \<le> len" and "len < 8"
  shows "(\<exists>s'. set_bytes cfg s out (out - int dist) dist len = Return s' (out + int len)
            \<and> (\<forall>i<len. mem s' (out + int i) = mem s (out - int dist + int (i mod dist))))
       \<and> (ndebug cfg \<longrightarrow>
            (\<exists>s'. chunk_memset cfg s out (out - int dist) dist len
                     = Some (Return s' (out + int len))
              \<and> (\<forall>i<len. mem s' (out + int i) = mem s (out - int dist + int (i mod dist)))))
       \<and> (\<not> ndebug cfg \<longrightarrow>
            chunk_memset cfg s out (out - int dist) dist len = Some (AssertFail s))
       \<and> (len \<le> d \<longrightarrow>
            set_bytes cfg s out (out - int d) d len = copy_bytes cfg s out (out - int d) len
            \<and> (\<exists>s'. copy_bytes cfg s out (out - int d) len = Return s' (out + int len)
                  \<and> mem s' = mem (plain_copy s out (out - int d) len)
                  \<and> wr s' = wr (plain_copy s out (out - int d) len)))"
proof -
  have a: "\<exists>s'. set_bytes cfg s out (out - int dist) dist len = Return s' (out + int len)
            \<and> (\<forall>i<len. mem s' (out + int i) = mem s (out - int dist + int (i mod dist)))"
    using set_bytes_pattern[OF assms(1,4), of cfg s out] by blast
  have b: "ndebug cfg \<longrightarrow>
            (\<exists>s'. chunk_memset cfg s out (out - int dist) dist len
                     = Some (Return s' (out + int len))
              \<and> (\<forall>i<len. mem s' (out + int i) = mem s (out - int dist + int (i mod dist))))"
    using chunk_memset_short[OF _ assms(1,3,4), of cfg s out] by blast
  have c: "\<not> ndebug cfg \<longrightarrow>
            chunk_memset cfg s out (out - int dist) dist len = Some (AssertFail s)"
    using chunk_memset_short_debug[OF _ assms(4)] by blast
  have d: "len \<le> d \<longrightarrow>
            set_bytes cfg s out (out - int d) d len = copy_bytes cfg s out (out - int d) len
            \<and> (\<exists>s'. copy_bytes cfg s out (out - int d) len = Return s' (out + int len)
                  \<and> mem s' = mem (plain_copy s out (out - int d) len)
                  \<and> wr s' = wr (plain_copy s out (out - int d) len))"
  proof
    assume le: "len \<le> d"
    then have "out - int d + int len \<le> out \<or> out \<le> out - int d" by simp
    from copy_bytes_plain[OF assms(4) this, of cfg s] set_bytes_delegates[OF le]
    show "set_bytes cfg s out (out - int d) d len = copy_bytes cfg s out (out - int d) len
            \<and> (\<exists>s'. copy_bytes cfg s out (out - int d) len = Return s' (out + int len)
                  \<and> mem s' = mem (plain_copy s out (out - int d) len)
                  \<and> wr s' = wr (plain_copy s out (out - int d) len))"
      by blast
  qed
  from a b c d show ?thesis by blast
qed

theorem set_bytes_replicates_witness:
  "(1::nat) \<le> 3 \<and> (3::nat) \<le> 7 \<and> (3::nat) \<le> 7 \<and> (7::nat) < 8
   \<and> (\<exists>s'. set_bytes debug_build heap_ramp 100 (100 - int 3) 3 7 = Return s' (100 + int 7)
        \<and> map (mem s') [100, 101, 102, 103, 104, 105, 106] = [97, 98, 99, 97, 98, 99, 97])
   \<and> ndebug release_build
   \<and> (\<exists>s'. chunk_memset release_build heap_ramp 100 (100 - int 3) 3 7
               = Some (Return s' (100 + int 7))
        \<and> map (mem s') [100, 101, 102, 103, 104, 105, 106] = [97, 98, 99, 97, 98, 99, 97])
   \<and> \<not> ndebug debug_build
   \<and> chunk_memset debug_build heap_ramp 100 (100 - int 3) 3 7 = Some (AssertFail heap_ramp)
   \<and> (7::nat) \<le> 9
   \<and> set_bytes debug_build heap_ramp 100 (100 - int 9) 9 7
        = copy_bytes debug_build heap_ramp 100 (100 - int 9) 7
   \<and> (\<exists>s'. copy_bytes debug_build heap_ramp 100 (100 - int 9) 7 = Return s' (100 + int 7)
        \<and> mem s' = mem (plain_copy heap_ramp 100 (100 - int 9) 7)
        \<and> wr s' = wr (plain_copy heap_ramp 100 (100 - int 9) 7))"
  using set_bytes_replicates[of 3 7 debug_build heap_ramp 100 9]
    set_bytes_replicates[of 3 7 release_build heap_ramp 100 9]
  by (simp add: all_less_numeral heap_ramp_def debug_build_def release_build_def)

text \<open>
  C3. \<^verbatim>\<open>chunk_copy(out, out-4, dist=4, len=11)\<close>, called when the four bytes before
  \<^verbatim>\<open>out\<close> are \<open>a, b, c, d\<close>, returns \<^verbatim>\<open>out + 11\<close> with \<open>a, b, c, d, a, b, c, d, a, b, c\<close>
  in \<^verbatim>\<open>out[0..10]\<close>; the addresses it writes are exactly those eleven, and all other
  memory keeps its contents. This holds in every build.
\<close>

theorem chunk_copy_dist4_len11:
  assumes "mem s (out - 4) = a" and "mem s (out - 3) = b"
    and "mem s (out - 2) = c" and "mem s (out - 1) = d"
  shows "\<exists>s'. chunk_copy cfg s out (out - 4) 4 11 = Some (Return s' (out + 11))
      \<and> map (mem s') [out, out + 1, out + 2, out + 3, out + 4, out + 5, out + 6, out + 7,
                        out + 8, out + 9, out + 10] = [a, b, c, d, a, b, c, d, a, b, c]
      \<and> wr s' = wr s \<union> {out ..< out + 11}
      \<and> (\<forall>x. \<not> (out \<le> x \<and> x < out + 11) \<longrightarrow> mem s' x = mem s x)"
proof -
  have run: "chunk_copy cfg s out (out - 4) 4 11 = chunk_memset cfg s out (out - int 4) 4 11"
    by (simp add: chunk_copy_def)
  from chunk_memset_pattern[of 4 11 cfg s out] obtain s' where
    r: "chunk_memset cfg s out (out - int 4) 4 11 = Some (Return s' (out + int 11))"
    and w: "wr s' = wr s \<union> {out ..< out + int 11}"
    and fr: "\<forall>x. \<not> (out \<le> x \<and> x < out + int 11) \<longrightarrow> mem s' x = mem s x"
    and pat: "\<forall>i<11. mem s' (out + int i) = mem s (out - int 4 + int (i mod 4))"
    by auto
  have "map (mem s') [out, out + 1, out + 2, out + 3, out + 4, out + 5, out + 6, out + 7,
                        out + 8, out + 9, out + 10] = [a, b, c, d, a, b, c, d, a, b, c]"
    using pat assms by (simp add: all_less_numeral)
  with run r w fr show ?thesis by simp
qed

theorem chunk_copy_dist4_len11_witness:
  "mem heap_abcd (100 - 4) = 0x41 \<and> mem heap_abcd (100 - 3) = 0x42
   \<and> mem heap_abcd (100 - 2) = 0x43 \<and> mem heap_abcd (100 - 1) = 0x44
   \<and> (\<exists>s'. chunk_copy debug_build heap_abcd 100 (100 - 4) 4 11 = Some (Return s' (100 + 11))
      \<and> map (mem s') [100, 101, 102, 103, 104, 105, 106, 107, 108, 109, 110]
          = [0x41, 0x42, 0x43, 0x44, 0x41, 0x42, 0x43, 0x44, 0x41, 0x42, 0x43]
      \<and> wr s' = {100 ..< 111})"
proof -
  have h: "mem heap_abcd (100 - 4) = 0x41" "mem heap_abcd (100 - 3) = 0x42"
    "mem heap_abcd (100 - 2) = 0x43" "mem heap_abcd (100 - 1) = 0x44"
    by (simp_all add: heap_abcd_def)
  from chunk_copy_dist4_len11[OF h, of debug_build] h show ?thesis
    by (auto simp add: heap_abcd_def)
qed

text \<open>
  C10. The claim: the doubling loop keeps \<^verbatim>\<open>from = out - dist\<close>, so every
  \<^verbatim>\<open>copy_8_bytes\<close> in the loop and the final \<^verbatim>\<open>set_bytes\<close> or \<^verbatim>\<open>chunk_memcpy\<close> call read
  from exactly \<open>dist\<close> bytes behind the write cursor, that is, always from already-written
  output. The relation is kept, but the last part fails for the copies of the loop:
  \<^verbatim>\<open>copy_8_bytes\<close> loads 8 bytes and the loop runs with \<open>dist < 8\<close>, so the load reaches
  over the cursor. In the first round of \<^verbatim>\<open>chunk_memset(100, 97, 3, 12)\<close>, with written
  output at 97, 98, 99 only, byte 3 of the load is the byte at the cursor, address 100,
  and it is stored at address 103.
\<close>

theorem doubling_copy_reads_cursor:
  "(3::nat) < 12 \<and> (3::nat) < 8
   \<and> chunk_memset_loop debug_build heap_out3 100 (100 - 3) 3 12
       = chunk_memset_loop debug_build (fst (copy_8_bytes heap_out3 100 (100 - 3)))
           (100 + 3) (100 - 3) (3 + 3) (12 - 3)
   \<and> wr heap_out3 = {97, 98, 99} \<and> (100::int) \<notin> wr heap_out3
   \<and> load heap_out3 (100 - 3) 8 ! 3 = mem heap_out3 100
   \<and> mem (fst (copy_8_bytes heap_out3 100 (100 - 3))) (100 + 3) = mem heap_out3 100"
proof -
  have "chunk_memset_loop debug_build heap_out3 100 (100 - 3) 3 12
       = chunk_memset_loop debug_build (fst (copy_8_bytes heap_out3 100 (100 - 3)))
           (100 + 3) (100 - 3) (3 + 3) (12 - 3)"
    by (subst chunk_memset_loop.simps) (simp add: Let_def)
  moreover have "wr heap_out3 = {97, 98, 99}"
    by (auto simp add: heap_out3_def)
  moreover have "(100::int) \<notin> wr heap_out3"
    by (simp add: heap_out3_def)
  moreover have "load heap_out3 (100 - 3) 8 ! 3 = mem heap_out3 100"
    by (simp add: load_nth)
  moreover have "mem (fst (copy_8_bytes heap_out3 100 (100 - 3))) (100 + 3) = mem heap_out3 100"
    by (simp add: copy_8_bytes_def mem_via_chunk)
  ultimately show ?thesis by simp
qed

text \<open>
  C10 as amended. With \<^verbatim>\<open>from = out - dist\<close> at loop entry the relation holds again
  after the updates \<^verbatim>\<open>out += dist; dist += dist\<close> of a round, and the loop of the source,
  which carries \<^verbatim>\<open>from\<close> along unchanged, is the loop in which every \<^verbatim>\<open>copy_8_bytes\<close>
  and the final \<^verbatim>\<open>set_bytes\<close> or \<^verbatim>\<open>chunk_memcpy\<close> are handed the address \<open>dist\<close> bytes
  behind the current cursor (the equation also covers the runs that do not end,
  \<open>dist = 0\<close>). Of the 8 bytes a \<^verbatim>\<open>copy_8_bytes\<close> loads and stores at \<^verbatim>\<open>out[0..7]\<close>, those
  with index below \<open>dist\<close> lie behind the cursor and the others are the bytes at
  \<open>out + (i - dist)\<close>, at and after the cursor. The final call, \<^verbatim>\<open>set_bytes\<close> with
  \<open>len < 8\<close> or \<^verbatim>\<open>chunk_memcpy\<close> with \<open>dist \<ge> 8\<close> and \<open>len \<ge> 8\<close>, leaves in
  \<^verbatim>\<open>out[0..len-1]\<close> copies of the \<open>dist\<close> bytes behind the cursor only.
\<close>

theorem chunk_memset_loop_reads_behind:
  assumes f: "from = out - int dist"
  shows "from = (out + int dist) - int (dist + dist)
       \<and> chunk_memset_loop cfg s out from dist len = chunk_memset_loop_behind cfg s out dist len
       \<and> (\<forall>i<8. load s from 8 ! i
              = (if i < dist then mem s (out - int (dist - i)) else mem s (out + int (i - dist))))
       \<and> (\<forall>i<8. mem (fst (copy_8_bytes s out from)) (out + int i)
              = (if i < dist then mem s (out - int (dist - i)) else mem s (out + int (i - dist))))
       \<and> (1 \<le> dist \<and> len < 8 \<longrightarrow>
            (\<exists>s'. set_bytes cfg s out from dist len = Return s' (out + int len)
               \<and> (\<forall>i<len. mem s' (out + int i) = mem s (out - int dist + int (i mod dist)))))
       \<and> (8 \<le> dist \<and> 8 \<le> len \<longrightarrow>
            (\<exists>s'. chunk_memcpy cfg s out from len = Return s' (out + int len)
               \<and> (\<forall>i<len. mem s' (out + int i) = mem s (out - int dist + int (i mod dist)))))"
proof -
  have a: "from = (out + int dist) - int (dist + dist)"
    using f by simp
  have b: "chunk_memset_loop cfg s out from dist len = chunk_memset_loop_behind cfg s out dist len"
  proof (cases "chunk_memset_loop cfg s out from dist len")
    case None
    show ?thesis
    proof (cases "chunk_memset_loop_behind cfg s out dist len")
      case n: None
      with None show ?thesis by simp
    next
      case (Some r)
      from behind_to_loop[OF this] f None show ?thesis by simp
    qed
  next
    case (Some r)
    from loop_to_behind[OF this] f Some show ?thesis by simp
  qed
  have c: "\<forall>i<8. load s from 8 ! i
              = (if i < dist then mem s (out - int (dist - i)) else mem s (out + int (i - dist)))"
  proof (intro allI impI)
    fix i :: nat assume i: "i < 8"
    then have "load s from 8 ! i = mem s (out - int dist + int i)"
      by (simp add: load_nth f)
    then show "load s from 8 ! i
        = (if i < dist then mem s (out - int (dist - i)) else mem s (out + int (i - dist)))"
      by (simp only: behind_or_ahead)
  qed
  have d: "\<forall>i<8. mem (fst (copy_8_bytes s out from)) (out + int i)
              = (if i < dist then mem s (out - int (dist - i)) else mem s (out + int (i - dist)))"
  proof (intro allI impI)
    fix i :: nat assume i: "i < 8"
    then have "mem (fst (copy_8_bytes s out from)) (out + int i) = mem s (from + int i)"
      by (simp add: copy_8_bytes_def mem_via_chunk)
    then have "mem (fst (copy_8_bytes s out from)) (out + int i) = mem s (out - int dist + int i)"
      by (simp only: f)
    then show "mem (fst (copy_8_bytes s out from)) (out + int i)
        = (if i < dist then mem s (out - int (dist - i)) else mem s (out + int (i - dist)))"
      by (simp only: behind_or_ahead)
  qed
  have e: "1 \<le> dist \<and> len < 8 \<longrightarrow>
            (\<exists>s'. set_bytes cfg s out from dist len = Return s' (out + int len)
               \<and> (\<forall>i<len. mem s' (out + int i) = mem s (out - int dist + int (i mod dist))))"
  proof
    assume p: "1 \<le> dist \<and> len < 8"
    then have d1: "1 \<le> dist" and l8: "len < 8" by simp_all
    from set_bytes_pattern[OF d1 l8, of cfg s out]
    show "\<exists>s'. set_bytes cfg s out from dist len = Return s' (out + int len)
               \<and> (\<forall>i<len. mem s' (out + int i) = mem s (out - int dist + int (i mod dist)))"
      unfolding f by blast
  qed
  have g: "8 \<le> dist \<and> 8 \<le> len \<longrightarrow>
            (\<exists>s'. chunk_memcpy cfg s out from len = Return s' (out + int len)
               \<and> (\<forall>i<len. mem s' (out + int i) = mem s (out - int dist + int (i mod dist))))"
  proof
    assume p: "8 \<le> dist \<and> 8 \<le> len"
    then have d8: "8 \<le> dist" and l8: "8 \<le> len" by simp_all
    from chunk_memcpy_pattern[OF d8 l8, of cfg s out]
    show "\<exists>s'. chunk_memcpy cfg s out from len = Return s' (out + int len)
               \<and> (\<forall>i<len. mem s' (out + int i) = mem s (out - int dist + int (i mod dist)))"
      unfolding f by blast
  qed
  from a b c d e g show ?thesis by blast
qed

theorem chunk_memset_loop_reads_behind_witness:
  "(97::int) = 100 - int 3
   \<and> chunk_memset_loop debug_build heap_out3 100 97 3 12
        = chunk_memset_loop_behind debug_build heap_out3 100 3 12
   \<and> map (\<lambda>i. load heap_out3 97 8 ! i) [0, 1, 2, 3, 4, 5, 6, 7]
        = map (mem heap_out3) [97, 98, 99, 100, 101, 102, 103, 104]
   \<and> map (mem (fst (copy_8_bytes heap_out3 100 97))) [100, 101, 102, 103, 104, 105, 106, 107]
        = map (mem heap_out3) [97, 98, 99, 100, 101, 102, 103, 104]
   \<and> (94::int) = 100 - int 6 \<and> (1::nat) \<le> 6 \<and> (5::nat) < 8
   \<and> (\<exists>s'. set_bytes debug_build heap_out3 100 94 6 5 = Return s' (100 + int 5)
        \<and> map (mem s') [100, 101, 102, 103, 104] = map (mem heap_out3) [94, 95, 96, 97, 98])
   \<and> (92::int) = 100 - int 8 \<and> (8::nat) \<le> 8 \<and> (8::nat) \<le> 9
   \<and> (\<exists>s'. chunk_memcpy debug_build heap_out3 100 92 9 = Return s' (100 + int 9)
        \<and> map (mem s') [100, 101, 102, 103, 104, 105, 106, 107, 108]
            = map (mem heap_out3) [92, 93, 94, 95, 96, 97, 98, 99, 92])"
  using chunk_memset_loop_reads_behind[of 97 100 3 debug_build heap_out3 12]
    chunk_memset_loop_reads_behind[of 94 100 6 debug_build heap_out3 5]
    chunk_memset_loop_reads_behind[of 92 100 8 debug_build heap_out3 9]
  by (simp add: all_less_numeral)

section \<open>Claims about the dispatchers\<close>

text \<open>
  C6. When \<open>dist = 0\<close> or \<open>dist \<ge> len\<close>, and the source window \<open>[from, from + len)\<close>
  does not overlap the destination \<open>[out, out + len)\<close>, \<^verbatim>\<open>chunk_copy\<close> returns
  \<^verbatim>\<open>out + len\<close> and leaves memory as a plain copy of the \<open>len\<close> source bytes does,
  whichever routine the dispatch selects (\<^verbatim>\<open>copy_bytes\<close>, \<^verbatim>\<open>set_bytes\<close>, \<^verbatim>\<open>chunk_memcpy\<close>
  directly or through \<^verbatim>\<open>chunk_memset\<close>) and in every build.
\<close>

theorem chunk_copy_non_overlap:
  assumes regime: "dist = 0 \<or> len \<le> dist"
    and apart: "from + int len \<le> out \<or> out + int len \<le> from"
  shows "\<exists>s'. chunk_copy cfg s out from dist len = Some (Return s' (out + int len))
      \<and> mem s' = mem (plain_copy s out from len)
      \<and> wr s' = wr (plain_copy s out from len)"
proof -
  have "\<exists>s'. chunk_copy cfg s out from dist len = Some (Return s' (out + int len))
      \<and> wr s' = wr s \<union> {out ..< out + int len}
      \<and> (\<forall>x. \<not> (out \<le> x \<and> x < out + int len) \<longrightarrow> mem s' x = mem s x)
      \<and> (\<forall>i<len. mem s' (out + int i) = mem s (from + int i))"
  proof (cases "len < 8")
    case True
    have "chunk_copy cfg s out from dist len = Some (copy_bytes cfg s out from len)"
      using True regime by (auto simp add: chunk_copy_def set_bytes_delegates)
    moreover have "from + int len \<le> out \<or> out \<le> from"
      using apart by auto
    ultimately show ?thesis
      using copy_bytes_run[OF True, of "from" out cfg s] by simp
  next
    case False
    then have len: "8 \<le> len" by simp
    have "chunk_copy cfg s out from dist len = Some (chunk_memcpy cfg s out from len)"
      using len regime by (auto simp add: chunk_copy_def chunk_memset_def)
    then show ?thesis
      using chunk_memcpy_apart[OF len apart, of cfg s] by simp
  qed
  then obtain s' where
    r: "chunk_copy cfg s out from dist len = Some (Return s' (out + int len))"
    and w: "wr s' = wr s \<union> {out ..< out + int len}"
    and fr: "\<forall>x. \<not> (out \<le> x \<and> x < out + int len) \<longrightarrow> mem s' x = mem s x"
    and cp: "\<forall>i<len. mem s' (out + int i) = mem s (from + int i)"
    by blast
  from plain_copy_char[OF w fr cp] r show ?thesis by blast
qed

theorem chunk_copy_non_overlap_witness:
  "((0::nat) = 0 \<or> (20::nat) \<le> 0) \<and> ((60::int) + int 20 \<le> 100 \<or> (100::int) + int 20 \<le> 60)
   \<and> (\<exists>s'. chunk_copy debug_build heap_ramp 100 60 0 20 = Some (Return s' (100 + int 20))
      \<and> mem s' = mem (plain_copy heap_ramp 100 60 20)
      \<and> wr s' = wr (plain_copy heap_ramp 100 60 20))
   \<and> ((5::nat) = 0 \<or> (5::nat) \<le> 5) \<and> ((95::int) + int 5 \<le> 100 \<or> (100::int) + int 5 \<le> 95)
   \<and> (\<exists>s'. chunk_copy debug_build heap_ramp 100 95 5 5 = Some (Return s' (100 + int 5))
      \<and> mem s' = mem (plain_copy heap_ramp 100 95 5)
      \<and> wr s' = wr (plain_copy heap_ramp 100 95 5))"
  using chunk_copy_non_overlap[of 0 20 60 100 debug_build heap_ramp]
    chunk_copy_non_overlap[of 5 5 95 100 debug_build heap_ramp]
  by simp

text \<open>
  C7. When \<open>|from - out|\<close> is below the chunk width (16 with SSE2, else 8),
  \<^verbatim>\<open>safe_copy\<close> returns \<^verbatim>\<open>out + len\<close> and leaves the store exactly as the
  element-by-element left-to-right copy does, for every \<open>len\<close> and whatever the overlap;
  otherwise its result is that of \<^verbatim>\<open>fast_copy\<close>.
\<close>

theorem safe_copy_aliasing:
  "(\<bar>from - out\<bar> < int (chunk_width cfg) \<longrightarrow>
      safe_copy cfg s out from len = Return (bytewise_copy s out from len) (out + int len))
   \<and> (int (chunk_width cfg) \<le> \<bar>from - out\<bar> \<longrightarrow>
      safe_copy cfg s out from len = fast_copy cfg s out from len)
   \<and> chunk_width cfg = (if sse2 cfg then 16 else 8)"
  by (simp add: safe_copy_def Let_def byte_loop_bytewise ret_def chunk_width_def)

theorem safe_copy_aliasing_witness:
  "\<bar>103 - 100\<bar> < int (chunk_width debug_build)
   \<and> safe_copy debug_build heap_ramp 100 103 10
        = Return (bytewise_copy heap_ramp 100 103 10) (100 + int 10)
   \<and> int (chunk_width plain_build) \<le> \<bar>100 - 108\<bar>
   \<and> safe_copy plain_build heap_ramp 108 100 10 = fast_copy plain_build heap_ramp 108 100 10"
  using safe_copy_aliasing[of 103 100 debug_build heap_ramp 10]
    safe_copy_aliasing[of 100 108 plain_build heap_ramp 10]
  by (simp add: chunk_width_def debug_build_def plain_build_def)

section \<open>Claims about the footprint\<close>

text \<open>
  C8. For the bulk routines \<^verbatim>\<open>chunk_memcpy\<close>, \<^verbatim>\<open>chunk_memcpy_16\<close>, \<^verbatim>\<open>byte_memset\<close>,
  \<^verbatim>\<open>chunk_memset\<close> and \<^verbatim>\<open>chunk_copy\<close>, called within their asserted domains, every address
  written lies in \<open>[out, out + len + chunk_width - 1)\<close> and memory outside this interval
  keeps its contents; \<^verbatim>\<open>chunk_memset\<close> and \<^verbatim>\<open>chunk_copy\<close> return. The store examined is the
  one at the return, or at the failed assertion when the call stops in one.
\<close>

theorem overshoot_contained:
  "(8 \<le> len \<longrightarrow>
      within s out (out + int len + int (chunk_width cfg) - 1)
        (final (chunk_memcpy cfg s out from len)))
   \<and> (sse2 cfg \<and> 16 \<le> len \<longrightarrow>
      within s out (out + int len + int (chunk_width cfg) - 1)
        (final (chunk_memcpy_16 cfg s out from len)))
   \<and> (8 \<le> len \<longrightarrow>
      within s out (out + int len + int (chunk_width cfg) - 1)
        (final (byte_memset cfg s out len)))
   \<and> (8 \<le> len \<and> 1 \<le> dist \<longrightarrow>
        (\<exists>r. chunk_memset cfg s out from dist len = Some r
           \<and> within s out (out + int len + int (chunk_width cfg) - 1) (final r)))
   \<and> (\<exists>r. chunk_copy cfg s out from dist len = Some r
           \<and> within s out (out + int len + int (chunk_width cfg) - 1) (final r))"
proof -
  have hi: "out + int len \<le> out + int len + int (chunk_width cfg) - 1"
    by (simp add: chunk_width_def)
  have a: "8 \<le> len \<longrightarrow>
      within s out (out + int len + int (chunk_width cfg) - 1)
        (final (chunk_memcpy cfg s out from len))"
    using within_wider[OF chunk_memcpy_within hi] by blast
  have b: "sse2 cfg \<and> 16 \<le> len \<longrightarrow>
      within s out (out + int len + int (chunk_width cfg) - 1)
        (final (chunk_memcpy_16 cfg s out from len))"
    using within_wider[OF chunk_memcpy_16_within hi] by blast
  have c: "8 \<le> len \<longrightarrow>
      within s out (out + int len + int (chunk_width cfg) - 1)
        (final (byte_memset cfg s out len))"
    using within_wider[OF byte_memset_within hi] by blast
  have d: "8 \<le> len \<and> 1 \<le> dist \<longrightarrow>
        (\<exists>r. chunk_memset cfg s out from dist len = Some r
           \<and> within s out (out + int len + int (chunk_width cfg) - 1) (final r))"
  proof
    assume p: "8 \<le> len \<and> 1 \<le> dist"
    then obtain r where r: "chunk_memset cfg s out from dist len = Some r"
      and w: "within s out (out + int len) (final r)"
      using chunk_memset_within[of dist len cfg s out "from"] by blast
    from within_wider[OF w hi] r
    show "\<exists>r. chunk_memset cfg s out from dist len = Some r
           \<and> within s out (out + int len + int (chunk_width cfg) - 1) (final r)"
      by blast
  qed
  have e: "\<exists>r. chunk_copy cfg s out from dist len = Some r
           \<and> within s out (out + int len + int (chunk_width cfg) - 1) (final r)"
  proof -
    obtain r where r: "chunk_copy cfg s out from dist len = Some r"
      and w: "within s out (out + int len) (final r)"
      using chunk_copy_within[of cfg s out "from" dist len] by blast
    from within_wider[OF w hi] r show ?thesis by blast
  qed
  from a b c d e show ?thesis by blast
qed

theorem overshoot_contained_witness:
  "(8::nat) \<le> 20 \<and> sse2 release_build \<and> (16::nat) \<le> 20 \<and> (1::nat) \<le> 3
   \<and> int (chunk_width release_build) = 16
   \<and> wr (final (chunk_memcpy release_build heap_ramp 100 97 20)) \<subseteq> {100 ..< 100 + 20 + 16 - 1}
   \<and> mem (final (chunk_memcpy release_build heap_ramp 100 97 20)) (100 + 20 + 16 - 1)
       = mem heap_ramp (100 + 20 + 16 - 1)
   \<and> wr (final (chunk_memcpy_16 release_build heap_ramp 100 97 20)) \<subseteq> {100 ..< 100 + 20 + 16 - 1}
   \<and> wr (final (byte_memset release_build heap_ramp 100 20)) \<subseteq> {100 ..< 100 + 20 + 16 - 1}
   \<and> (\<exists>r. chunk_memset release_build heap_ramp 100 97 3 20 = Some r
         \<and> wr (final r) \<subseteq> {100 ..< 100 + 20 + 16 - 1})
   \<and> (\<exists>r. chunk_copy release_build heap_ramp 100 97 3 20 = Some r
         \<and> wr (final r) \<subseteq> {100 ..< 100 + 20 + 16 - 1}
         \<and> mem (final r) (100 + 20 + 16 - 1) = mem heap_ramp (100 + 20 + 16 - 1))"
proof -
  have e: "wr heap_ramp = {}" by (simp add: heap_ramp_def)
  have c: "int (chunk_width release_build) = 16" and v: "sse2 release_build"
    by (simp_all add: chunk_width_def release_build_def)
  show ?thesis
    using overshoot_contained[of 20 release_build heap_ramp 100 97 3] v
    unfolding e c by auto
qed

text \<open>
  C9. No routine writes at or beyond \<^verbatim>\<open>out + len\<close>: within their asserted domains the
  writes of \<^verbatim>\<open>copy_bytes\<close>, \<^verbatim>\<open>set_bytes\<close>, \<^verbatim>\<open>chunk_memcpy\<close>, \<^verbatim>\<open>chunk_memcpy_16\<close>,
  \<^verbatim>\<open>byte_memset\<close>, \<^verbatim>\<open>chunk_memset\<close>, \<^verbatim>\<open>chunk_copy\<close>, \<^verbatim>\<open>fast_copy\<close> and \<^verbatim>\<open>safe_copy\<close> all
  lie in \<open>[out, out + len)\<close>, and memory outside this interval keeps its contents.
\<close>

theorem writes_stay_below_len:
  "(len < 8 \<longrightarrow> within s out (out + int len) (final (copy_bytes cfg s out from len)))
   \<and> (len < 8 \<longrightarrow> within s out (out + int len) (final (set_bytes cfg s out from dist len)))
   \<and> (8 \<le> len \<longrightarrow> within s out (out + int len) (final (chunk_memcpy cfg s out from len)))
   \<and> (16 \<le> len \<longrightarrow> within s out (out + int len) (final (chunk_memcpy_16 cfg s out from len)))
   \<and> (8 \<le> len \<longrightarrow> within s out (out + int len) (final (byte_memset cfg s out len)))
   \<and> (8 \<le> len \<and> 1 \<le> dist \<longrightarrow>
        (\<exists>r. chunk_memset cfg s out from dist len = Some r
           \<and> within s out (out + int len) (final r)))
   \<and> (\<exists>r. chunk_copy cfg s out from dist len = Some r \<and> within s out (out + int len) (final r))
   \<and> within s out (out + int len) (final (fast_copy cfg s out from len))
   \<and> within s out (out + int len) (final (safe_copy cfg s out from len))"
  using copy_bytes_within[of len cfg s out "from"]
    set_bytes_within[of len cfg s out "from" dist]
    chunk_memcpy_within[of len cfg s out "from"]
    chunk_memcpy_16_within[of len cfg s out "from"]
    byte_memset_within[of len cfg s out]
    chunk_memset_within[of dist len cfg s out "from"]
    chunk_copy_within[of cfg s out "from" dist len]
    fast_copy_within[of cfg s out "from" len]
    safe_copy_within[of cfg s out "from" len]
  by blast


theorem writes_stay_below_len_witness:
  "(5::nat) < 8
   \<and> wr (final (copy_bytes debug_build heap_ramp 100 97 5)) \<subseteq> {100 ..< 105}
   \<and> wr (final (set_bytes debug_build heap_ramp 100 97 3 5)) \<subseteq> {100 ..< 105}
   \<and> (\<exists>r. chunk_copy debug_build heap_ramp 100 97 3 5 = Some r \<and> wr (final r) \<subseteq> {100 ..< 105})
   \<and> (8::nat) \<le> 20 \<and> (16::nat) \<le> 20 \<and> (1::nat) \<le> 3
   \<and> wr (final (chunk_memcpy debug_build heap_ramp 100 97 20)) \<subseteq> {100 ..< 120}
   \<and> wr (final (chunk_memcpy_16 debug_build heap_ramp 100 97 20)) \<subseteq> {100 ..< 120}
   \<and> wr (final (byte_memset debug_build heap_ramp 100 20)) \<subseteq> {100 ..< 120}
   \<and> (\<exists>r. chunk_memset debug_build heap_ramp 100 97 3 20 = Some r
         \<and> wr (final r) \<subseteq> {100 ..< 120})
   \<and> (\<exists>r. chunk_copy debug_build heap_ramp 100 97 3 20 = Some r
         \<and> wr (final r) \<subseteq> {100 ..< 120})
   \<and> wr (final (fast_copy debug_build heap_ramp 100 97 20)) \<subseteq> {100 ..< 120}
   \<and> wr (final (safe_copy debug_build heap_ramp 100 97 20)) \<subseteq> {100 ..< 120}"
proof -
  have e: "wr heap_ramp = {}" by (simp add: heap_ramp_def)
  show ?thesis
    using writes_stay_below_len[of 5 debug_build heap_ramp 100 97 3]
      writes_stay_below_len[of 20 debug_build heap_ramp 100 97 3]
    unfolding e by auto
qed

end
